theory Spec2Isabelle
  imports Main
begin

text \<open>
  \<^verbatim>\<open>src/main.cpp\<close> holds the program, lines 776 to 1389, after two earlier drafts of it that
  are not complete programs (lines 1 to 775: no \<^verbatim>\<open>codegen\<close> is defined, and classes that
  leave the pure virtual \<^verbatim>\<open>codegen\<close> without an override are instantiated). The definitions
  follow the program, which is what \<^verbatim>\<open>CMakeLists.txt\<close> builds.
\<close>

section \<open>Characters, tokens and the global state of the front end\<close>

text \<open>
  The program reads standard input through \<^verbatim>\<open>getchar\<close>, which returns an \<^verbatim>\<open>int\<close>: the code
  of the character read, or \<^verbatim>\<open>EOF\<close>. Tokens are \<^verbatim>\<open>int\<close>s as well: the negative enumerators
  of \<^verbatim>\<open>enum Token\<close>, or the code of a single character.
\<close>

abbreviation EOF :: int where "EOF \<equiv> - 1"

abbreviation tok_eof :: int where "tok_eof \<equiv> - 1"
abbreviation tok_fun :: int where "tok_fun \<equiv> - 2"
abbreviation tok_imp :: int where "tok_imp \<equiv> - 3"
abbreviation tok_identifier :: int where "tok_identifier \<equiv> - 4"
abbreviation tok_number :: int where "tok_number \<equiv> - 5"

abbreviation ord :: "char \<Rightarrow> int" where "ord c \<equiv> of_char c"

text \<open>The character classes of \<^verbatim>\<open><cctype>\<close> in the C locale; all are false at \<^verbatim>\<open>EOF\<close>.\<close>

definition isspace :: "int \<Rightarrow> bool" where
  "isspace c = ((9 \<le> c \<and> c \<le> 13) \<or> c = 32)"

definition isdigit :: "int \<Rightarrow> bool" where
  "isdigit c = (48 \<le> c \<and> c \<le> 57)"

definition isalpha :: "int \<Rightarrow> bool" where
  "isalpha c = ((65 \<le> c \<and> c \<le> 90) \<or> (97 \<le> c \<and> c \<le> 122))"

definition isalnum :: "int \<Rightarrow> bool" where
  "isalnum c = (isalpha c \<or> isdigit c)"

definition isascii :: "int \<Rightarrow> bool" where
  "isascii c = (0 \<le> c \<and> c \<le> 127)"

text \<open>
  What the program builds through the LLVM library. A \<^verbatim>\<open>Value *\<close> is a constant, a formal
  parameter of a function (given by the address of the function and its position), or an
  instruction, written as a term over its operands. A \<^verbatim>\<open>Function *\<close> is an address; the
  module holds the functions in the order of their creation, each with its name, the
  names of its parameters and its basic blocks, a block being the list of its
  instructions.
\<close>

datatype 'd Value =
    ConstantFP 'd
  | Argument nat nat
  | FAdd "'d Value" "'d Value"
  | FSub "'d Value" "'d Value"
  | FMul "'d Value" "'d Value"
  | FCmpULT "'d Value" "'d Value"
  | UIToFP "'d Value"
  | Call nat "'d Value list"
  | Ret "'d Value"

record 'd Function =
  fn_name :: string
  fn_args :: "string list"
  fn_blocks :: "'d Value list list"

text \<open>
  The globals of the program, with what is left of standard input and what has been
  printed on the error stream. The type \<open>'d\<close> stands for \<^verbatim>\<open>double\<close>. A null
  \<^verbatim>\<open>Value *\<close> in \<^verbatim>\<open>NamedValues\<close> is \<open>None\<close>. \<open>InsertPoint\<close> is the block the
  \<^verbatim>\<open>Builder\<close> appends to (the address of its function and its position there), and
  \<open>next_addr\<close> is the address the next function created will get.
\<close>

record 'd state =
  input :: string
  LastChar :: int
  IdentifierStr :: string
  NumVal :: 'd
  CurTok :: int
  BinopPrecedence :: "char \<rightharpoonup> int"
  TheModule :: "(nat \<times> 'd Function) list"
  NamedValues :: "string \<rightharpoonup> 'd Value option"
  InsertPoint :: "(nat \<times> nat) option"
  next_addr :: nat
  stderr :: "string list"

text \<open>\<^verbatim>\<open>LastChar = getchar()\<close>\<close>

definition getchar :: "'d state \<Rightarrow> 'd state" where
  "getchar s = (case input s of
                  [] \<Rightarrow> s\<lparr>LastChar := EOF\<rparr>
                | c # cs \<Rightarrow> s\<lparr>input := cs, LastChar := ord c\<rparr>)"

definition chars_left :: "'d state \<Rightarrow> nat" where
  "chars_left s = length (input s) + (if LastChar s = EOF then 0 else 1)"

lemma chars_left_getchar: "LastChar s \<noteq> EOF \<Longrightarrow> chars_left (getchar s) < chars_left s"
  by (auto simp: chars_left_def getchar_def split: list.splits)

lemma chars_left_getchar_le: "chars_left (getchar s) \<le> chars_left s"
  by (auto simp: chars_left_def getchar_def split: list.splits)

lemma input_getchar_less: "LastChar (getchar s) \<noteq> EOF \<Longrightarrow> length (input (getchar s)) < length (input s)"
  by (auto simp: getchar_def split: list.splits)

lemma input_getchar_le: "length (input (getchar s)) \<le> length (input s)"
  by (auto simp: getchar_def split: list.splits)

section \<open>The lexer\<close>

text \<open>\<^verbatim>\<open>while (isspace(LastChar)) LastChar = getchar();\<close>\<close>

function skip_space :: "'d state \<Rightarrow> 'd state" where
  "skip_space s = (if isspace (LastChar s) then skip_space (getchar s) else s)"
  by pat_completeness auto
termination
  by (relation "measure chars_left") (auto simp: isspace_def intro!: chars_left_getchar)

text \<open>\<^verbatim>\<open>while (isalnum((LastChar = getchar()))) IdentifierStr += LastChar;\<close>\<close>

function read_identifier :: "'d state \<Rightarrow> 'd state" where
  "read_identifier s =
     (let s1 = getchar s in
      if isalnum (LastChar s1)
      then read_identifier (s1\<lparr>IdentifierStr := IdentifierStr s1 @ [char_of (LastChar s1)]\<rparr>)
      else s1)"
  by pat_completeness auto
termination
  by (relation "measure (\<lambda>s. length (input s))")
     (auto simp: isalnum_def isalpha_def isdigit_def intro!: input_getchar_less)

text \<open>
  \<^verbatim>\<open>do { NumStr += LastChar; LastChar = getchar(); } while (isdigit(LastChar) || LastChar == '.');\<close>
\<close>

function read_number :: "string \<Rightarrow> 'd state \<Rightarrow> string \<times> 'd state" where
  "read_number NumStr s =
     (let NumStr' = NumStr @ [char_of (LastChar s)]; s1 = getchar s in
      if isdigit (LastChar s1) \<or> LastChar s1 = ord CHR ''.''
      then read_number NumStr' s1
      else (NumStr', s1))"
  by pat_completeness auto
termination
  by (relation "measure (\<lambda>(n, s). length (input s))")
     (auto simp: isdigit_def intro!: input_getchar_less)

text \<open>
  \<^verbatim>\<open>do LastChar = getchar(); while (LastChar != EOF && LastChar != '\n' && LastChar != '\r');\<close>
\<close>

function skip_line :: "'d state \<Rightarrow> 'd state" where
  "skip_line s =
     (let s1 = getchar s in
      if LastChar s1 \<noteq> EOF \<and> LastChar s1 \<noteq> ord (CHR 0x0A) \<and> LastChar s1 \<noteq> ord (CHR 0x0D)
      then skip_line s1
      else s1)"
  by pat_completeness auto
termination
  by (relation "measure (\<lambda>s. length (input s))") (auto intro!: input_getchar_less)

text \<open>
  The loop of the multi-line comment. It returns \<open>True\<close> when it leaves by \<^verbatim>\<open>break\<close> (the
  closing pair was read) and \<open>False\<close> when it reaches the end of input, reports the error
  and makes \<^verbatim>\<open>getTok\<close> return \<^verbatim>\<open>tok_eof\<close>.
\<close>

function skip_block :: "'d state \<Rightarrow> bool \<times> 'd state" where
  "skip_block s =
     (let s1 = getchar s in
      if LastChar s1 = EOF
      then (False, s1\<lparr>stderr := stderr s1 @ [''Error: Unterminated multi-line comment'']\<rparr>)
      else if LastChar s1 = ord CHR ''*''
      then (let s2 = getchar s1 in
            if LastChar s2 = ord CHR ''/'' then (True, s2) else skip_block s2)
      else skip_block s1)"
  by pat_completeness auto
termination
proof (relation "measure (\<lambda>s. length (input s))", goal_cases)
  case 1
  show ?case by simp
next
  case (2 s s1 s2)
  have "length (input (getchar (getchar s))) \<le> length (input (getchar s))"
    by (rule input_getchar_le)
  also have "\<dots> < length (input s)"
    using 2 by (auto intro!: input_getchar_less)
  finally show ?case using 2 by simp
next
  case (3 s s1)
  then show ?case by (auto intro!: input_getchar_less)
qed

declare skip_space.simps [simp del] read_identifier.simps [simp del] read_number.simps [simp del]
  skip_line.simps [simp del] skip_block.simps [simp del]

lemma chars_left_skip_space: "chars_left (skip_space s) \<le> chars_left s"
proof (induction s rule: skip_space.induct)
  case (1 s)
  show ?case
  proof (cases "isspace (LastChar s)")
    case True
    with 1 have "chars_left (skip_space s) \<le> chars_left (getchar s)"
      by (subst skip_space.simps) simp
    also have "\<dots> \<le> chars_left s" by (rule chars_left_getchar_le)
    finally show ?thesis .
  next
    case False
    then show ?thesis by (subst skip_space.simps) simp
  qed
qed

lemma chars_left_skip_line: "chars_left (skip_line s) \<le> chars_left s"
proof (induction s rule: skip_line.induct)
  case (1 s)
  let ?s1 = "getchar s"
  show ?case
  proof (cases "LastChar ?s1 \<noteq> EOF \<and> LastChar ?s1 \<noteq> ord (CHR 0x0A) \<and> LastChar ?s1 \<noteq> ord (CHR 0x0D)")
    case True
    with 1 have "chars_left (skip_line ?s1) \<le> chars_left ?s1" by simp
    moreover have "skip_line s = skip_line ?s1"
      using True by (subst skip_line.simps) (simp add: Let_def)
    ultimately show ?thesis
      using chars_left_getchar_le [of s] by simp
  next
    case False
    then have "skip_line s = ?s1"
      by (subst skip_line.simps) (auto simp add: Let_def)
    then show ?thesis by (simp add: chars_left_getchar_le)
  qed
qed

lemma chars_left_skip_block: "chars_left (snd (skip_block s)) \<le> chars_left s"
proof (induction s rule: skip_block.induct)
  case (1 s)
  let ?s1 = "getchar s"
  let ?s2 = "getchar ?s1"
  have le1: "chars_left ?s1 \<le> chars_left s" by (rule chars_left_getchar_le)
  have le2: "chars_left ?s2 \<le> chars_left s"
    using chars_left_getchar_le [of ?s1] le1 by simp
  consider (eof) "LastChar ?s1 = EOF"
    | (close) "LastChar ?s1 \<noteq> EOF" "LastChar ?s1 = ord CHR ''*''" "LastChar ?s2 = ord CHR ''/''"
    | (star) "LastChar ?s1 \<noteq> EOF" "LastChar ?s1 = ord CHR ''*''" "LastChar ?s2 \<noteq> ord CHR ''/''"
    | (other) "LastChar ?s1 \<noteq> EOF" "LastChar ?s1 \<noteq> ord CHR ''*''"
    by blast
  then show ?case
  proof cases
    case eof
    then have "snd (skip_block s) = ?s1\<lparr>stderr := stderr ?s1 @ [''Error: Unterminated multi-line comment'']\<rparr>"
      by (subst skip_block.simps) (simp add: Let_def)
    then show ?thesis using le1 by (simp add: chars_left_def)
  next
    case close
    then have "snd (skip_block s) = ?s2"
      by (subst skip_block.simps) (simp add: Let_def)
    then show ?thesis using le2 by simp
  next
    case star
    then have "skip_block s = skip_block ?s2"
      by (subst skip_block.simps) (simp add: Let_def)
    moreover have "chars_left (snd (skip_block ?s2)) \<le> chars_left ?s2"
      using star 1(1) by simp
    ultimately show ?thesis using le2 by simp
  next
    case other
    then have "skip_block s = skip_block ?s1"
      by (subst skip_block.simps) (simp add: Let_def)
    moreover have "chars_left (snd (skip_block ?s1)) \<le> chars_left ?s1"
      using other 1(2) by simp
    ultimately show ?thesis using le1 by simp
  qed
qed

text \<open>
  \<^verbatim>\<open>getTok\<close> (the complete program, lines 820 to 892). The conversion \<^verbatim>\<open>strtod\<close> of the C
  library is a parameter. After a line comment that ends at the end of input, control
  falls through to the test for \<^verbatim>\<open>EOF\<close>, which returns \<^verbatim>\<open>tok_eof\<close>.
\<close>

function getTok :: "(string \<Rightarrow> 'd) \<Rightarrow> 'd state \<Rightarrow> int \<times> 'd state" where
  "getTok strtod s0 =
     (let s = skip_space s0 in
      if isalpha (LastChar s) then
        (let s1 = read_identifier (s\<lparr>IdentifierStr := [char_of (LastChar s)]\<rparr>) in
         if IdentifierStr s1 = ''fn'' then (tok_fun, s1)
         else if IdentifierStr s1 = ''import'' then (tok_imp, s1)
         else (tok_identifier, s1))
      else if isdigit (LastChar s) \<or> LastChar s = ord CHR ''.'' then
        (let (NumStr, s1) = read_number [] s in
         (tok_number, s1\<lparr>NumVal := strtod NumStr\<rparr>))
      else if LastChar s = ord CHR ''/'' then
        (let s1 = getchar s in
         if LastChar s1 = ord CHR ''/'' then
           (let s2 = skip_line s1 in
            if LastChar s2 \<noteq> EOF then getTok strtod s2 else (tok_eof, s2))
         else if LastChar s1 = ord CHR ''*'' then
           (let (closed, s2) = skip_block s1 in
            if closed then getTok strtod (getchar s2) else (tok_eof, s2))
         else (ord CHR ''/'', s1))
      else if LastChar s = EOF then (tok_eof, s)
      else (LastChar s, getchar s))"
  by pat_completeness auto
termination
proof (relation "measure (\<lambda>(f, s). chars_left s)", goal_cases)
  case 1
  show ?case by simp
next
  case (2 strtod s0 s s1 s2)
  have "chars_left s2 \<le> chars_left s1"
    using 2 chars_left_skip_line by simp
  also have "\<dots> < chars_left s"
    using 2 by (auto intro!: chars_left_getchar)
  also have "\<dots> \<le> chars_left s0"
    using 2 chars_left_skip_space by simp
  finally show ?case by simp
next
  case (3 strtod s0 s s1 x closed s2)
  have "chars_left (getchar s2) \<le> chars_left s2"
    by (rule chars_left_getchar_le)
  also have "\<dots> \<le> chars_left s1"
  proof -
    from 3 have "snd (skip_block s1) = s2" by (metis snd_conv)
    then show ?thesis using chars_left_skip_block [of s1] by simp
  qed
  also have "\<dots> < chars_left s"
    using 3 by (auto intro!: chars_left_getchar)
  also have "\<dots> \<le> chars_left s0"
    using 3 chars_left_skip_space by simp
  finally show ?case by simp
qed

declare getTok.simps [simp del]

text \<open>\<^verbatim>\<open>static int getNextToken() { return CurTok = getTok(); }\<close>\<close>

definition getNextToken :: "(string \<Rightarrow> 'd) \<Rightarrow> 'd state \<Rightarrow> 'd state" where
  "getNextToken strtod s = (let (t, s') = getTok strtod s in s'\<lparr>CurTok := t\<rparr>)"


lemma chars_left_IdentifierStr [simp]: "chars_left (s\<lparr>IdentifierStr := x\<rparr>) = chars_left s"
  by (simp add: chars_left_def)

lemma chars_left_NumVal [simp]: "chars_left (s\<lparr>NumVal := x\<rparr>) = chars_left s"
  by (simp add: chars_left_def)

lemma chars_left_read_identifier: "chars_left (read_identifier s) \<le> chars_left (getchar s)"
proof (induction s rule: read_identifier.induct)
  case (1 s)
  let ?s1 = "getchar s"
  show ?case
  proof (cases "isalnum (LastChar ?s1)")
    case True
    let ?s2 = "?s1\<lparr>IdentifierStr := IdentifierStr ?s1 @ [char_of (LastChar ?s1)]\<rparr>"
    have "read_identifier s = read_identifier ?s2"
      using True by (subst read_identifier.simps) (simp add: Let_def)
    moreover have "chars_left (read_identifier ?s2) \<le> chars_left (getchar ?s2)"
      using True 1 by simp
    moreover have "chars_left (getchar ?s2) \<le> chars_left ?s2"
      by (rule chars_left_getchar_le)
    ultimately show ?thesis by simp
  next
    case False
    then have "read_identifier s = ?s1"
      by (subst read_identifier.simps) (simp add: Let_def)
    then show ?thesis by simp
  qed
qed

lemma chars_left_read_number: "chars_left (snd (read_number acc s)) \<le> chars_left (getchar s)"
proof (induction acc s rule: read_number.induct)
  case (1 NumStr s)
  let ?s1 = "getchar s"
  let ?acc = "NumStr @ [char_of (LastChar s)]"
  show ?case
  proof (cases "isdigit (LastChar ?s1) \<or> LastChar ?s1 = ord CHR ''.''")
    case True
    have "read_number NumStr s = read_number ?acc ?s1"
      using True by (subst read_number.simps) (simp add: Let_def)
    moreover have "chars_left (snd (read_number ?acc ?s1)) \<le> chars_left (getchar ?s1)"
      using True 1 by simp
    moreover have "chars_left (getchar ?s1) \<le> chars_left ?s1"
      by (rule chars_left_getchar_le)
    ultimately show ?thesis by simp
  next
    case False
    then have "read_number NumStr s = (?acc, ?s1)"
      by (subst read_number.simps) (simp add: Let_def)
    then show ?thesis by simp
  qed
qed

lemma getTok_chars_left:
  "getTok strtod s0 = (t, s') \<Longrightarrow> t \<noteq> tok_eof \<Longrightarrow> chars_left s' < chars_left s0"
proof (induction strtod s0 rule: getTok.induct)
  case (1 strtod s0)
  let ?s = "skip_space s0"
  have le: "chars_left ?s \<le> chars_left s0" by (rule chars_left_skip_space)
  have step: "LastChar ?s \<noteq> EOF \<Longrightarrow> chars_left (getchar ?s) < chars_left s0"
    using chars_left_getchar [of ?s] le by simp
  consider (ident) "isalpha (LastChar ?s)"
    | (num) "\<not> isalpha (LastChar ?s)" "isdigit (LastChar ?s) \<or> LastChar ?s = ord CHR ''.''"
    | (slash) "\<not> isalpha (LastChar ?s)" "\<not> (isdigit (LastChar ?s) \<or> LastChar ?s = ord CHR ''.'')"
              "LastChar ?s = ord CHR ''/''"
    | (other) "\<not> isalpha (LastChar ?s)" "\<not> (isdigit (LastChar ?s) \<or> LastChar ?s = ord CHR ''.'')"
              "LastChar ?s \<noteq> ord CHR ''/''"
    by blast
  then show ?case
  proof cases
    case ident
    let ?s1 = "read_identifier (?s\<lparr>IdentifierStr := [char_of (LastChar ?s)]\<rparr>)"
    have "s' = ?s1"
      using "1.prems"(1) ident by (subst (asm) getTok.simps) (auto simp: Let_def split: if_splits)
    moreover have "chars_left ?s1 \<le> chars_left (getchar (?s\<lparr>IdentifierStr := [char_of (LastChar ?s)]\<rparr>))"
      by (rule chars_left_read_identifier)
    moreover have "chars_left (getchar (?s\<lparr>IdentifierStr := [char_of (LastChar ?s)]\<rparr>)) = chars_left (getchar ?s)"
      by (simp add: getchar_def chars_left_def split: list.splits)
    moreover have "LastChar ?s \<noteq> EOF" using ident by (auto simp: isalpha_def)
    ultimately show ?thesis using step by simp
  next
    case num
    have "s' = (snd (read_number [] ?s))\<lparr>NumVal := strtod (fst (read_number [] ?s))\<rparr>"
      using "1.prems"(1) num by (subst (asm) getTok.simps) (auto simp: Let_def split: prod.splits)
    moreover have "chars_left (snd (read_number [] ?s)) \<le> chars_left (getchar ?s)"
      by (rule chars_left_read_number)
    moreover have "LastChar ?s \<noteq> EOF" using num by (auto simp: isdigit_def)
    ultimately show ?thesis using step by simp
  next
    case slash
    let ?s1 = "getchar ?s"
    have s1: "chars_left ?s1 < chars_left s0" using step slash by simp
    consider (line) "LastChar ?s1 = ord CHR ''/''"
      | (block) "LastChar ?s1 \<noteq> ord CHR ''/''" "LastChar ?s1 = ord CHR ''*''"
      | (div) "LastChar ?s1 \<noteq> ord CHR ''/''" "LastChar ?s1 \<noteq> ord CHR ''*''"
      by blast
    then show ?thesis
    proof cases
      case line
      let ?s2 = "skip_line ?s1"
      have ne: "LastChar ?s2 \<noteq> EOF" and rec: "getTok strtod ?s2 = (t, s')"
        using "1.prems" slash line by (subst (asm) getTok.simps, auto simp: Let_def split: if_splits)+
      have "chars_left s' < chars_left ?s2"
        using "1.IH"(1) [OF refl slash(1) slash(2) slash(3) refl line refl ne rec "1.prems"(2)] .
      moreover have "chars_left ?s2 \<le> chars_left ?s1" by (rule chars_left_skip_line)
      ultimately show ?thesis using s1 by simp
    next
      case block
      obtain closed s2 where sb: "skip_block ?s1 = (closed, s2)" by (cases "skip_block ?s1")
      have cl: "closed" and rec: "getTok strtod (getchar s2) = (t, s')"
        using "1.prems" slash block sb by (subst (asm) getTok.simps, auto simp: Let_def split: if_splits)+
      have "chars_left s' < chars_left (getchar s2)"
        using "1.IH"(2) [OF refl slash(1) slash(2) slash(3) refl block(1) block(2) refl sb [symmetric] cl rec "1.prems"(2)] .
      moreover have "chars_left (getchar s2) \<le> chars_left s2" by (rule chars_left_getchar_le)
      moreover have "chars_left s2 \<le> chars_left ?s1" using chars_left_skip_block [of ?s1] sb by simp
      ultimately show ?thesis using s1 by simp
    next
      case div
      have "s' = ?s1"
        using "1.prems" slash div by (subst (asm) getTok.simps) (auto simp: Let_def split: if_splits)
      then show ?thesis using s1 by simp
    qed
  next
    case other
    have "LastChar ?s \<noteq> EOF" and "s' = getchar ?s"
      using "1.prems" other by (subst (asm) getTok.simps, auto simp: Let_def split: if_splits)+
    then show ?thesis using step by simp
  qed
qed


section \<open>The abstract syntax tree\<close>

text \<open>
  The four expression classes derived from \<^verbatim>\<open>ExprAST\<close>, and the two declaration classes.
  A null \<^verbatim>\<open>unique_ptr\<close> is \<open>None\<close>.
\<close>

datatype 'd ExprAST =
    NumberExprAST 'd
  | VariableExprAST string
  | BinaryExprAST char "'d ExprAST" "'d ExprAST"
  | CallExprAST string "'d ExprAST list"

datatype PrototypeAST = PrototypeAST string "string list"

datatype 'd FunctionAST = FunctionAST PrototypeAST "'d ExprAST"

fun getName :: "PrototypeAST \<Rightarrow> string" where
  "getName (PrototypeAST Name Args) = Name"

section \<open>The parser\<close>

text \<open>\<^verbatim>\<open>LogError\<close> prints the message; its callers return the null pointer.\<close>

definition LogError :: "string \<Rightarrow> 'd state \<Rightarrow> 'd state" where
  "LogError Str s = s\<lparr>stderr := stderr s @ [''Error: '' @ Str]\<rparr>"

text \<open>
  \<^verbatim>\<open>operator[]\<close> of \<^verbatim>\<open>std::map\<close>: a key that is absent is inserted with the
  value-initialised mapped value \<open>z\<close> (zero, or the null pointer), which is returned.
\<close>

definition subscript :: "'v \<Rightarrow> ('k \<rightharpoonup> 'v) \<Rightarrow> 'k \<Rightarrow> 'v \<times> ('k \<rightharpoonup> 'v)" where
  "subscript z m k = (case m k of None \<Rightarrow> (z, m(k \<mapsto> z)) | Some v \<Rightarrow> (v, m))"

text \<open>The table that \<^verbatim>\<open>main\<close> installs before the first token is read.\<close>

definition main_BinopPrecedence :: "char \<rightharpoonup> int" where
  "main_BinopPrecedence =
     [CHR ''<'' \<mapsto> 10, CHR ''+'' \<mapsto> 20, CHR ''-'' \<mapsto> 20, CHR ''*'' \<mapsto> 40]"

definition GetTokPrecedence :: "'d state \<Rightarrow> int \<times> 'd state" where
  "GetTokPrecedence s =
     (if \<not> isascii (CurTok s) then (- 1, s)
      else
        (let (TokPrec, m) = subscript 0 (BinopPrecedence s) (char_of (CurTok s));
             s' = s\<lparr>BinopPrecedence := m\<rparr>
         in if TokPrec \<le> 0 then (- 1, s') else (TokPrec, s')))"

text \<open>The parse functions return the tree, or \<open>None\<close> for the null pointer, and the state.\<close>

definition ParseNumberExpr :: "(string \<Rightarrow> 'd) \<Rightarrow> 'd state \<Rightarrow> 'd ExprAST option \<times> 'd state" where
  "ParseNumberExpr strtod s =
     (let result = NumberExprAST (NumVal s) in (Some result, getNextToken strtod s))"

text \<open>
  The parse functions call each other and loop on the tokens still to come. Each takes a
  bound on the depth of calls and loop rounds as its first argument, and returns \<open>None\<close>
  when the bound is reached. \<open>ParseArgs\<close> is the loop of \<^verbatim>\<open>ParseIdentifierExpr\<close> that
  collects the arguments of a call; it returns the null pointer of the enclosing function
  as \<open>None\<close> in place of the argument list.
\<close>

function (sequential) ParseExpression :: "nat \<Rightarrow> (string \<Rightarrow> 'd) \<Rightarrow> 'd state \<Rightarrow> ('d ExprAST option \<times> 'd state) option"
  and ParsePrimary :: "nat \<Rightarrow> (string \<Rightarrow> 'd) \<Rightarrow> 'd state \<Rightarrow> ('d ExprAST option \<times> 'd state) option"
  and ParseIdentifierExpr :: "nat \<Rightarrow> (string \<Rightarrow> 'd) \<Rightarrow> 'd state \<Rightarrow> ('d ExprAST option \<times> 'd state) option"
  and ParseArgs :: "nat \<Rightarrow> (string \<Rightarrow> 'd) \<Rightarrow> 'd ExprAST list \<Rightarrow> 'd state
                    \<Rightarrow> ('d ExprAST list option \<times> 'd state) option"
  and ParseParenExpr :: "nat \<Rightarrow> (string \<Rightarrow> 'd) \<Rightarrow> 'd state \<Rightarrow> ('d ExprAST option \<times> 'd state) option"
  and ParseBinOpRHS :: "nat \<Rightarrow> (string \<Rightarrow> 'd) \<Rightarrow> int \<Rightarrow> 'd ExprAST \<Rightarrow> 'd state
                        \<Rightarrow> ('d ExprAST option \<times> 'd state) option"
where
  "ParseExpression 0 strtod s = None"
| "ParseExpression (Suc n) strtod s =
     (case ParsePrimary n strtod s of
        None \<Rightarrow> None
      | Some (None, s1) \<Rightarrow> Some (None, s1)
      | Some (Some LHS, s1) \<Rightarrow> ParseBinOpRHS n strtod 0 LHS s1)"

| "ParsePrimary 0 strtod s = None"
| "ParsePrimary (Suc n) strtod s =
     (if CurTok s = tok_identifier then ParseIdentifierExpr n strtod s
      else if CurTok s = tok_number then Some (ParseNumberExpr strtod s)
      else if CurTok s = ord CHR ''('' then ParseParenExpr n strtod s
      else Some (None, LogError ''Unknown token when expecting an expression'' s))"

| "ParseIdentifierExpr 0 strtod s = None"
| "ParseIdentifierExpr (Suc n) strtod s =
     (let IdName = IdentifierStr s;
          s1 = getNextToken strtod s
      in if CurTok s1 \<noteq> ord CHR ''('' then Some (Some (VariableExprAST IdName), s1)
         else
           (let s2 = getNextToken strtod s1 in
            if CurTok s2 \<noteq> ord CHR '')'' then
              (case ParseArgs n strtod [] s2 of
                 None \<Rightarrow> None
               | Some (None, s3) \<Rightarrow> Some (None, s3)
               | Some (Some Args, s3) \<Rightarrow>
                   Some (Some (CallExprAST IdName Args), getNextToken strtod s3))
            else Some (Some (CallExprAST IdName []), getNextToken strtod s2)))"

| "ParseArgs 0 strtod Args s = None"
| "ParseArgs (Suc n) strtod Args s =
     (case ParseExpression n strtod s of
        None \<Rightarrow> None
      | Some (None, s1) \<Rightarrow> Some (None, s1)
      | Some (Some Arg, s1) \<Rightarrow>
          if CurTok s1 = ord CHR '')'' then Some (Some (Args @ [Arg]), s1)
          else if CurTok s1 \<noteq> ord CHR '','' then
            Some (None, LogError ''Expected ',' or ')' in argument list'' s1)
          else ParseArgs n strtod (Args @ [Arg]) (getNextToken strtod s1))"

| "ParseParenExpr 0 strtod s = None"
| "ParseParenExpr (Suc n) strtod s =
     (case ParseExpression n strtod (getNextToken strtod s) of
        None \<Rightarrow> None
      | Some (None, s1) \<Rightarrow> Some (None, s1)
      | Some (Some V, s1) \<Rightarrow>
          if CurTok s1 \<noteq> ord CHR '')'' then Some (None, LogError (''Expected '' @ [CHR 0x27, CHR '')'', CHR 0x27]) s1)
          else Some (Some V, getNextToken strtod s1))"

| "ParseBinOpRHS 0 strtod ExprPrec LHS s = None"
| "ParseBinOpRHS (Suc n) strtod ExprPrec LHS s =
     (let (TokPrec, s1) = GetTokPrecedence s in
      if TokPrec < ExprPrec then Some (Some LHS, s1)
      else
        (let BinOp = CurTok s1;
             s2 = getNextToken strtod s1
         in case ParsePrimary n strtod s2 of
              None \<Rightarrow> None
            | Some (None, s3) \<Rightarrow> Some (None, s3)
            | Some (Some RHS, s3) \<Rightarrow>
                (let (NextPrec, s4) = GetTokPrecedence s3 in
                 if TokPrec < NextPrec then
                   (case ParseBinOpRHS n strtod (TokPrec + 1) RHS s4 of
                      None \<Rightarrow> None
                    | Some (None, s5) \<Rightarrow> Some (None, s5)
                    | Some (Some RHS', s5) \<Rightarrow>
                        ParseBinOpRHS n strtod ExprPrec (BinaryExprAST (char_of BinOp) LHS RHS') s5)
                 else ParseBinOpRHS n strtod ExprPrec (BinaryExprAST (char_of BinOp) LHS RHS) s4)))"

  by pat_completeness auto
termination
  by (relation "measure (case_sum (case_sum fst (case_sum fst fst))
                                   (case_sum fst (case_sum fst fst)))") auto


section \<open>Code generation\<close>

text \<open>
  Two things the LLVM library decides are parameters of the model. \<open>Folder\<close> is the
  constant folder of the \<^verbatim>\<open>IRBuilder\<close>: given the instruction about to be created it
  returns the value that replaces it, in which case nothing is inserted, or \<open>None\<close>.
  \<open>makeUniqueName\<close> is the renaming of the symbol table: given whether the value is global,
  the names taken and the name asked for, which is taken, it returns the name given.
\<close>

record 'd LLVM =
  Folder :: "'d Value \<Rightarrow> 'd Value option"
  makeUniqueName :: "bool \<Rightarrow> string list \<Rightarrow> string \<Rightarrow> string"

text \<open>\<^verbatim>\<open>setName\<close>: an empty name or a free name is kept, a taken name is renamed.\<close>

definition setName :: "'d LLVM \<Rightarrow> bool \<Rightarrow> string list \<Rightarrow> string \<Rightarrow> string" where
  "setName L global taken n =
     (if n = [] \<or> n \<notin> set taken then n else makeUniqueName L global taken n)"

text \<open>
  \<^verbatim>\<open>Module::getFunction\<close> looks the name up in the symbol table of the module, which has
  no entry for a function without a name.
\<close>

definition getFunction :: "(nat \<times> 'd Function) list \<Rightarrow> string \<Rightarrow> (nat \<times> 'd Function) option" where
  "getFunction m Name = (if Name = [] then None else find (\<lambda>(a, f). fn_name f = Name) m)"

text \<open>The \<^verbatim>\<open>Builder\<close> appends an instruction to the block it points to, if there is one.\<close>

definition append_at :: "nat \<Rightarrow> 'a \<Rightarrow> 'a list list \<Rightarrow> 'a list list" where
  "append_at b x bs = (if b < length bs then bs[b := bs ! b @ [x]] else bs)"

definition Insert :: "'d Value \<Rightarrow> 'd state \<Rightarrow> 'd state" where
  "Insert I s =
     (case InsertPoint s of
        None \<Rightarrow> s
      | Some (F, b) \<Rightarrow>
          s\<lparr>TheModule :=
              map (\<lambda>(a, f). if a = F then (a, f\<lparr>fn_blocks := append_at b I (fn_blocks f)\<rparr>) else (a, f))
                  (TheModule s)\<rparr>)"

text \<open>
  \<^verbatim>\<open>Builder->CreateFAdd\<close> and the other operations that the folder may replace by a value.
\<close>

definition Create :: "'d LLVM \<Rightarrow> 'd Value \<Rightarrow> 'd state \<Rightarrow> 'd Value \<times> 'd state" where
  "Create L I s = (case Folder L I of Some V \<Rightarrow> (V, s) | None \<Rightarrow> (I, Insert I s))"

text \<open>
  \<^verbatim>\<open>codegen\<close> of the four expression classes. \<open>codegen_args\<close> is the loop of
  \<^verbatim>\<open>CallExprAST::codegen\<close> over the arguments; it returns the null pointer of the call as
  \<open>None\<close> in place of \<^verbatim>\<open>ArgsV\<close>.
\<close>

fun codegen :: "'d LLVM \<Rightarrow> 'd ExprAST \<Rightarrow> 'd state \<Rightarrow> 'd Value option \<times> 'd state"
  and codegen_args :: "'d LLVM \<Rightarrow> 'd ExprAST list \<Rightarrow> 'd Value list \<Rightarrow> 'd state
                       \<Rightarrow> 'd Value list option \<times> 'd state"
where
  "codegen L (NumberExprAST Val) s = (Some (ConstantFP Val), s)"
| "codegen L (VariableExprAST Name) s =
     (let (V, m) = subscript None (NamedValues s) Name;
          s1 = s\<lparr>NamedValues := m\<rparr>
      in case V of
           None \<Rightarrow> (None, LogError ''Unknown Variable name'' s1)
         | Some v \<Rightarrow> (Some v, s1))"
| "codegen L (BinaryExprAST Op LHS RHS) s =
     (let (L', s1) = codegen L LHS s;
          (R', s2) = codegen L RHS s1
      in case (L', R') of
           (Some l, Some r) \<Rightarrow>
             if Op = CHR ''+'' then (let (v, s3) = Create L (FAdd l r) s2 in (Some v, s3))
             else if Op = CHR ''-'' then (let (v, s3) = Create L (FSub l r) s2 in (Some v, s3))
             else if Op = CHR ''*'' then (let (v, s3) = Create L (FMul l r) s2 in (Some v, s3))
             else if Op = CHR ''<'' then
               (let (c, s3) = Create L (FCmpULT l r) s2;
                    (v, s4) = Create L (UIToFP c) s3
                in (Some v, s4))
             else (None, LogError ''invalid binary operator'' s2)
         | _ \<Rightarrow> (None, s2))"
| "codegen L (CallExprAST Callee Args) s =
     (case getFunction (TheModule s) Callee of
        None \<Rightarrow> (None, LogError ''Unkown Function referenced'' s)
      | Some (CalleeF, f) \<Rightarrow>
          if length (fn_args f) \<noteq> length Args then
            (None, LogError ''Incorrect number of arguments passed into function call'' s)
          else
            (case codegen_args L Args [] s of
               (None, s1) \<Rightarrow> (None, s1)
             | (Some ArgsV, s1) \<Rightarrow> (Some (Call CalleeF ArgsV), Insert (Call CalleeF ArgsV) s1)))"
| "codegen_args L [] ArgsV s = (Some ArgsV, s)"
| "codegen_args L (A # As) ArgsV s =
     (case codegen L A s of
        (None, s1) \<Rightarrow> (None, s1)
      | (Some v, s1) \<Rightarrow> codegen_args L As (ArgsV @ [v]) s1)"

text \<open>
  \<^verbatim>\<open>for (auto &Arg : F->args()) Arg.setName(Args[Idx++]);\<close> The parameters of the new
  function have no name yet; each name is set against the names given so far.
\<close>

fun setArgNames :: "'d LLVM \<Rightarrow> string list \<Rightarrow> string list \<Rightarrow> string list" where
  "setArgNames L named [] = named"
| "setArgNames L named (a # Args) = setArgNames L (named @ [setName L False named a]) Args"

text \<open>
  \<^verbatim>\<open>PrototypeAST::codegen\<close>: \<^verbatim>\<open>Function::Create\<close> adds a new function to the module, under
  the name asked for unless a function of the module has it already.
\<close>

fun PrototypeAST_codegen :: "'d LLVM \<Rightarrow> PrototypeAST \<Rightarrow> 'd state
                               \<Rightarrow> (nat \<times> 'd Function) option \<times> 'd state" where
  "PrototypeAST_codegen L (PrototypeAST Name Args) s =
     (let F = next_addr s;
          f = \<lparr>fn_name = setName L True (map (\<lambda>(a, f). fn_name f) (TheModule s)) Name,
               fn_args = setArgNames L [] Args,
               fn_blocks = []\<rparr>
      in (Some (F, f), s\<lparr>TheModule := TheModule s @ [(F, f)], next_addr := Suc F\<rparr>))"

text \<open>
  \<^verbatim>\<open>NamedValues.clear(); for (auto &Arg : TheFunction->args()) NamedValues[...] = &Arg;\<close>
\<close>

fun record_args :: "nat \<Rightarrow> nat \<Rightarrow> string list \<Rightarrow> (string \<rightharpoonup> 'd Value option)
                      \<Rightarrow> (string \<rightharpoonup> 'd Value option)" where
  "record_args F i [] m = m"
| "record_args F i (a # as) m = record_args F (Suc i) as (m(a \<mapsto> Some (Argument F i)))"

text \<open>
  \<^verbatim>\<open>verifyFunction\<close> returns true when the function is broken; the model checks that every
  block ends with its only terminator. The program does not look at the answer.
\<close>

fun isTerminator :: "'d Value \<Rightarrow> bool" where
  "isTerminator (Ret v) = True"
| "isTerminator v = False"

definition verifyFunction :: "'d Function \<Rightarrow> bool" where
  "verifyFunction f =
     (\<not> list_all (\<lambda>b. b \<noteq> [] \<and> isTerminator (last b) \<and> list_all (\<lambda>i. \<not> isTerminator i) (butlast b))
                 (fn_blocks f))"

definition eraseFromParent :: "nat \<Rightarrow> 'd state \<Rightarrow> 'd state" where
  "eraseFromParent F s = s\<lparr>TheModule := filter (\<lambda>(a, f). a \<noteq> F) (TheModule s)\<rparr>"

text \<open>\<^verbatim>\<open>BasicBlock::Create(*TheContext, "entry", TheFunction)\<close>\<close>

definition BasicBlock_Create :: "nat \<Rightarrow> 'd state \<Rightarrow> 'd state" where
  "BasicBlock_Create F s =
     s\<lparr>TheModule :=
         map (\<lambda>(a, f). if a = F then (a, f\<lparr>fn_blocks := fn_blocks f @ [[]]\<rparr>) else (a, f))
             (TheModule s)\<rparr>"

text \<open>\<^verbatim>\<open>FunctionAST::codegen\<close>\<close>

fun FunctionAST_codegen :: "'d LLVM \<Rightarrow> 'd FunctionAST \<Rightarrow> 'd state \<Rightarrow> nat option \<times> 'd state" where
  "FunctionAST_codegen L (FunctionAST Proto Body) s =
     (let (TheFunction, s1) =
            (case getFunction (TheModule s) (getName Proto) of
               None \<Rightarrow> PrototypeAST_codegen L Proto s
             | Some Ff \<Rightarrow> (Some Ff, s))
      in case TheFunction of
           None \<Rightarrow> (None, s1)
         | Some (F, f) \<Rightarrow>
             if fn_blocks f \<noteq> [] then (None, LogError ''Function cannot be redefined'' s1)
             else
               (let s2 = (BasicBlock_Create F s1)\<lparr>InsertPoint := Some (F, 0)\<rparr>;
                    s3 = s2\<lparr>NamedValues := record_args F 0 (fn_args f) Map.empty\<rparr>
                in case codegen L Body s3 of
                     (Some RetVal, s4) \<Rightarrow>
                       (let s5 = Insert (Ret RetVal) s4;
                            broken = map_option verifyFunction (map_of (TheModule s5) F)
                        in (Some F, s5))
                   | (None, s4) \<Rightarrow> (None, eraseFromParent F s4)))"

declare FunctionAST_codegen.simps [simp del]

text \<open>
  The state in which \<^verbatim>\<open>main\<close> reads the first token: the statics have their initial values
  (\<^verbatim>\<open>LastChar = ' '\<close>, zero for \<^verbatim>\<open>CurTok\<close> and for \<^verbatim>\<open>NumVal\<close>, which is what \<^verbatim>\<open>strtod\<close>
  returns for \<^verbatim>\<open>"0"\<close>), the four operators are installed, the module is new and empty, and
  standard input holds \<open>inp\<close>.
\<close>

definition init_state :: "(string \<Rightarrow> 'd) \<Rightarrow> string \<Rightarrow> 'd state" where
  "init_state strtod inp =
     \<lparr>input = inp, LastChar = ord CHR '' '', IdentifierStr = [], NumVal = strtod ''0'',
      CurTok = 0, BinopPrecedence = main_BinopPrecedence, TheModule = [],
      NamedValues = Map.empty, InsertPoint = None, next_addr = 0, stderr = []\<rparr>"

text \<open>
  What a caller sees of the lexer on a whole input: the token returned by each call of
  \<^verbatim>\<open>getTok\<close> up to and including the first \<^verbatim>\<open>tok_eof\<close>, each with the values of
  \<^verbatim>\<open>IdentifierStr\<close> and \<^verbatim>\<open>NumVal\<close> after the call.
\<close>

function token_sequence :: "(string \<Rightarrow> 'd) \<Rightarrow> 'd state \<Rightarrow> (int \<times> string \<times> 'd) list" where
  "token_sequence strtod s =
     (let (t, s') = getTok strtod s in
      (t, IdentifierStr s', NumVal s') # (if t = tok_eof then [] else token_sequence strtod s'))"
  by pat_completeness auto
termination
  by (relation "measure (\<lambda>(f, s). chars_left s)") (auto dest: getTok_chars_left [OF sym])

declare token_sequence.simps [simp del]

section \<open>Evaluation on concrete inputs\<close>

text \<open>The equations that the simplifier unfolds to run the lexer and the parser.\<close>

lemmas lex_eval =
  getTok.simps skip_space.simps read_identifier.simps read_number.simps
  skip_line.simps skip_block.simps token_sequence.simps
  getchar_def isspace_def isdigit_def isalpha_def isalnum_def Let_def char_of_def
  getNextToken_def init_state_def

lemmas parse_eval =
  lex_eval GetTokPrecedence_def isascii_def subscript_def main_BinopPrecedence_def
  ParseNumberExpr_def LogError_def eval_nat_numeral

section \<open>The number rule of the lexer\<close>

text \<open>The test of the loop that collects a number: a digit or a decimal point.\<close>

definition num_char :: "char \<Rightarrow> bool" where
  "num_char c = (isdigit (ord c) \<or> ord c = ord CHR ''.'')"

lemma getchar_Cons: "input s = c # cs \<Longrightarrow> getchar s = s\<lparr>input := cs, LastChar := ord c\<rparr>"
  by (simp add: getchar_def)

lemma getchar_Nil: "input s = [] \<Longrightarrow> getchar s = s\<lparr>input := [], LastChar := EOF\<rparr>"
  by (simp add: getchar_def)

lemma ord_not_EOF [simp]: "ord c \<noteq> EOF"
proof -
  have "ord c = int (of_char c)" by (simp add: of_nat_of_char)
  then show ?thesis by linarith
qed

lemma skip_space_run:
  "\<forall>c\<in>set ws. isspace (ord c) \<Longrightarrow> LastChar s = ord c0 \<Longrightarrow> c0 # input s = ws @ c1 # rest
   \<Longrightarrow> \<not> isspace (ord c1) \<Longrightarrow> skip_space s = s\<lparr>input := rest, LastChar := ord c1\<rparr>"
proof (induction ws arbitrary: s c0)
  case Nil
  then have "\<not> isspace (LastChar s)" and "input s = rest" and "LastChar s = ord c1" by simp_all
  then show ?case by (subst skip_space.simps) simp
next
  case (Cons w ws)
  from Cons.prems have w: "c0 = w" "isspace (LastChar s)" and inp: "input s = ws @ c1 # rest"
    by simp_all
  obtain x xs where "ws @ c1 # rest = x # xs" by (cases ws) auto
  with inp have xs: "input s = x # xs" by simp
  let ?s1 = "s\<lparr>input := xs, LastChar := ord x\<rparr>"
  have "skip_space ?s1 = ?s1\<lparr>input := rest, LastChar := ord c1\<rparr>"
  proof (rule Cons.IH [where ?c0.0 = x])
    show "\<forall>c\<in>set ws. isspace (ord c)" using Cons.prems by simp
    show "LastChar ?s1 = ord x" by simp
    show "x # input ?s1 = ws @ c1 # rest" using inp xs by simp
    show "\<not> isspace (ord c1)" by fact
  qed
  moreover have "skip_space s = skip_space ?s1"
    using w xs by (subst skip_space.simps) (simp add: getchar_Cons)
  ultimately show ?case by simp
qed

lemma read_number_run:
  "LastChar s = ord c \<Longrightarrow> input s = cs @ rest \<Longrightarrow> \<forall>x\<in>set cs. num_char x
   \<Longrightarrow> rest = [] \<or> \<not> num_char (hd rest)
   \<Longrightarrow> read_number acc s =
        (acc @ c # cs, s\<lparr>input := tl rest, LastChar := (if rest = [] then EOF else ord (hd rest))\<rparr>)"
proof (induction cs arbitrary: s c acc)
  case Nil
  show ?case
  proof (cases rest)
    case Nil
    with Nil.prems have "input s = []" by simp
    then show ?thesis
      using Nil.prems \<open>rest = []\<close>
      by (subst read_number.simps) (simp add: getchar_Nil Let_def isdigit_def)
  next
    case (Cons r rs)
    with Nil.prems have "input s = r # rs" and "\<not> num_char r" by simp_all
    then show ?thesis
      using Nil.prems \<open>rest = r # rs\<close>
      by (subst read_number.simps) (simp add: getchar_Cons Let_def num_char_def)
  qed
next
  case (Cons x xs)
  let ?s1 = "s\<lparr>input := xs @ rest, LastChar := ord x\<rparr>"
  have inp: "input s = x # (xs @ rest)" and nx: "num_char x" using Cons.prems by simp_all
  have "read_number (acc @ [c]) ?s1 =
          ((acc @ [c]) @ x # xs,
           ?s1\<lparr>input := tl rest, LastChar := (if rest = [] then EOF else ord (hd rest))\<rparr>)"
    by (rule Cons.IH) (use Cons.prems in simp_all)
  moreover have "read_number acc s = read_number (acc @ [c]) ?s1"
    using inp nx Cons.prems(1)
    by (subst read_number.simps) (simp add: getchar_Cons Let_def num_char_def)
  ultimately show ?case by simp
qed

text \<open>
  C7. The characters the lexer has still to look at are \<open>LastChar\<close> followed by the input.
  When they are white space \<open>ws\<close>, then a non-empty run of digits and decimal points that
  is followed by the end of input or by another character, \<^verbatim>\<open>getTok\<close> returns
  \<^verbatim>\<open>tok_number\<close>, sets \<^verbatim>\<open>NumVal\<close> to \<^verbatim>\<open>strtod\<close> of exactly that run and stops at the
  character after it. The conversion is a function of the run alone: the program never
  calls \<^verbatim>\<open>setlocale\<close>, so \<^verbatim>\<open>strtod\<close> works in the C locale whatever the environment.
\<close>

theorem getTok_number:
  assumes "LastChar s = ord c0"
    and "c0 # input s = ws @ run @ rest"
    and "\<forall>c\<in>set ws. isspace (ord c)"
    and "run \<noteq> []"
    and "\<forall>c\<in>set run. num_char c"
    and "rest = [] \<or> \<not> num_char (hd rest)"
  shows "getTok strtod s =
           (tok_number,
            s\<lparr>input := tl rest, LastChar := (if rest = [] then EOF else ord (hd rest)),
              NumVal := strtod run\<rparr>)"
proof -
  obtain c1 cs where run: "run = c1 # cs" using assms(4) by (cases run) auto
  have c1: "num_char c1" and cs: "\<forall>x\<in>set cs. num_char x" using assms(5) run by simp_all
  have nsp: "\<not> isspace (ord c1)" using c1 by (auto simp: num_char_def isspace_def isdigit_def)
  have nal: "\<not> isalpha (ord c1)" using c1 by (auto simp: num_char_def isalpha_def isdigit_def)
  let ?s = "s\<lparr>input := cs @ rest, LastChar := ord c1\<rparr>"
  have sk: "skip_space s = ?s"
    by (rule skip_space_run [where ?c0.0 = c0 and ws = ws]) (use assms run nsp in simp_all)
  have rn: "read_number [] ?s =
              ([] @ c1 # cs, ?s\<lparr>input := tl rest, LastChar := (if rest = [] then EOF else ord (hd rest))\<rparr>)"
    by (rule read_number_run) (use cs assms(6) in simp_all)
  show ?thesis
    using sk rn c1 nal run
    by (subst getTok.simps) (simp add: Let_def num_char_def)
qed

theorem getTok_number_witness:
  "getTok (\<lambda>run. run) (init_state (\<lambda>run. run) '' 1.5.2+x'') =
     (tok_number,
      (init_state (\<lambda>run. run) '' 1.5.2+x'')
        \<lparr>input := ''x'', LastChar := ord CHR ''+'', NumVal := ''1.5.2''\<rparr>)"
  using getTok_number [of "init_state (\<lambda>run. run) '' 1.5.2+x''" "CHR '' ''" "''  ''" "''1.5.2''" "''+x''"
                          "\<lambda>run. run"]
  by (simp add: init_state_def isspace_def num_char_def isdigit_def)

section \<open>Comments\<close>

text \<open>
  The two inputs of the specification with a comment give the tokens
  of \<^verbatim>\<open>1 + 2\<close>, whatever \<^verbatim>\<open>strtod\<close> is.
\<close>

lemma getTok_line_comment_skipped:
  "token_sequence strtod (init_state strtod (''1 // comment'' @ [CHR 0x0A] @ ''+ 2''))
     = token_sequence strtod (init_state strtod ''1 + 2'')"
  by (simp add: lex_eval)

lemma getTok_block_comment_skipped:
  "token_sequence strtod (init_state strtod ''1 /* c */ + 2'')
     = token_sequence strtod (init_state strtod ''1 + 2'')"
  by (simp add: lex_eval)

lemma getTok_tokens_of_sum:
  "token_sequence strtod (init_state strtod ''1 + 2'')
     = [(tok_number, [], strtod ''1''), (ord CHR ''+'', [], strtod ''1''),
        (tok_number, [], strtod ''2''), (tok_eof, [], strtod ''2'')]"
  by (simp add: lex_eval)

text \<open>
  A block comment whose body has no \<^verbatim>\<open>'*'\<close> is consumed up to its closing pair, and the
  lexer goes on with what follows it.
\<close>

lemma skip_block_closes:
  assumes "CHR ''*'' \<notin> set c" and "input s = c @ ''*/'' @ rest"
  shows "skip_block s = (True, s\<lparr>input := rest, LastChar := ord CHR ''/''\<rparr>)"
  using assms
proof (induction c arbitrary: s)
  case Nil
  then have i: "input s = CHR ''*'' # CHR ''/'' # rest" by simp
  have g1: "getchar s = s\<lparr>input := CHR ''/'' # rest, LastChar := ord CHR ''*''\<rparr>"
    by (rule getchar_Cons [OF i])
  have g2: "getchar (getchar s) = s\<lparr>input := rest, LastChar := ord CHR ''/''\<rparr>"
    unfolding g1 by (simp add: getchar_def)
  show ?case
    by (subst skip_block.simps) (simp add: Let_def g2, simp add: g1)
next
  case (Cons x c)
  then have i: "input s = x # (c @ ''*/'' @ rest)" and x: "x \<noteq> CHR ''*''" by auto
  have g1: "getchar s = s\<lparr>input := c @ ''*/'' @ rest, LastChar := ord x\<rparr>"
    by (rule getchar_Cons [OF i])
  have "skip_block (getchar s) = (True, (getchar s)\<lparr>input := rest, LastChar := ord CHR ''/''\<rparr>)"
    by (rule Cons.IH) (use Cons.prems g1 in simp_all)
  then have r: "skip_block (s\<lparr>input := c @ ''*/'' @ rest, LastChar := ord x\<rparr>)
                  = (True, s\<lparr>input := rest, LastChar := ord CHR ''/''\<rparr>)"
    by (simp add: g1)
  have nx: "ord x \<noteq> ord CHR ''*''" using x by (simp only: of_char_eq_iff not_False_eq_True)
  have "skip_block s = skip_block (s\<lparr>input := c @ ''*/'' @ rest, LastChar := ord x\<rparr>)"
    using nx by (subst skip_block.simps) (simp add: Let_def g1)
  with r show ?case by (simp only:)
qed

lemma getTok_block_comment:
  assumes "CHR ''*'' \<notin> set c" and "LastChar s = ord CHR ''/''" and "input s = ''*'' @ c @ ''*/'' @ rest"
  shows "getTok strtod s = getTok strtod (getchar (s\<lparr>input := rest\<rparr>))"
proof -
  have sp: "skip_space s = s"
    using assms(2) by (subst skip_space.simps) (simp add: isspace_def)
  have i: "input s = CHR ''*'' # (c @ ''*/'' @ rest)" using assms(3) by simp
  have g1: "getchar s = s\<lparr>input := c @ ''*/'' @ rest, LastChar := ord CHR ''*''\<rparr>"
    by (rule getchar_Cons [OF i])
  have sb: "skip_block (getchar s) = (True, (getchar s)\<lparr>input := rest, LastChar := ord CHR ''/''\<rparr>)"
    by (rule skip_block_closes [OF assms(1)]) (simp add: g1)
  have e: "getchar ((getchar s)\<lparr>input := rest, LastChar := ord CHR ''/''\<rparr>) = getchar (s\<lparr>input := rest\<rparr>)"
    using assms(2) by (simp add: g1 getchar_def split: list.splits)
  have l: "LastChar (getchar s) = ord CHR ''*''" by (simp add: g1)
  have "getTok strtod s = getTok strtod (getchar ((getchar s)\<lparr>input := rest, LastChar := ord CHR ''/''\<rparr>))"
    by (subst getTok.simps) (simp add: sp assms(2) Let_def isalpha_def isdigit_def sb l)
  then show ?thesis by (simp only: e)
qed

text \<open>
  After a body without \<^verbatim>\<open>'*'\<close> the text \<^verbatim>\<open>**/\<close> does not close the comment: the loop goes
  on with what follows it.
\<close>

lemma skip_block_star_star:
  assumes "CHR ''*'' \<notin> set c" and "input s = c @ ''**/'' @ rest"
  shows "skip_block s = skip_block (s\<lparr>input := rest, LastChar := ord CHR ''/''\<rparr>)"
  using assms
proof (induction c arbitrary: s)
  case Nil
  then have i: "input s = CHR ''*'' # CHR ''*'' # CHR ''/'' # rest" by simp
  have g1: "getchar s = s\<lparr>input := CHR ''*'' # CHR ''/'' # rest, LastChar := ord CHR ''*''\<rparr>"
    by (rule getchar_Cons [OF i])
  have g2: "getchar (getchar s) = s\<lparr>input := CHR ''/'' # rest, LastChar := ord CHR ''*''\<rparr>"
    unfolding g1 by (simp add: getchar_def)
  have g3: "getchar (getchar (getchar s)) = s\<lparr>input := rest, LastChar := ord CHR ''/''\<rparr>"
    unfolding g2 by (simp add: getchar_def)
  have a: "skip_block s = skip_block (getchar (getchar s))"
    by (subst skip_block.simps) (simp add: Let_def g2, simp add: g1)
  have b: "skip_block (getchar (getchar s)) = skip_block (getchar (getchar (getchar s)))"
    by (subst skip_block.simps) (simp add: Let_def g3)
  show ?case unfolding a b g3 ..
next
  case (Cons x c)
  then have i: "input s = x # (c @ ''**/'' @ rest)" and x: "x \<noteq> CHR ''*''" by auto
  have g1: "getchar s = s\<lparr>input := c @ ''**/'' @ rest, LastChar := ord x\<rparr>"
    by (rule getchar_Cons [OF i])
  have "skip_block (getchar s) = skip_block ((getchar s)\<lparr>input := rest, LastChar := ord CHR ''/''\<rparr>)"
    by (rule Cons.IH) (use Cons.prems g1 in simp_all)
  then have r: "skip_block (s\<lparr>input := c @ ''**/'' @ rest, LastChar := ord x\<rparr>)
                  = skip_block (s\<lparr>input := rest, LastChar := ord CHR ''/''\<rparr>)"
    by (simp add: g1)
  have nx: "ord x \<noteq> ord CHR ''*''" using x by (simp only: of_char_eq_iff not_False_eq_True)
  have "skip_block s = skip_block (s\<lparr>input := c @ ''**/'' @ rest, LastChar := ord x\<rparr>)"
    using nx by (subst skip_block.simps) (simp add: Let_def g1)
  with r show ?case by (simp only:)
qed

text \<open>
  C2. The loop of the multi-line comment reads one more character after a \<^verbatim>\<open>'*'\<close> and, when
  that is not \<^verbatim>\<open>'/'\<close>, goes on with the character after it. A closing pair that follows a
  \<^verbatim>\<open>'*'\<close> is therefore missed: in \<^verbatim>\<open>1 /* c **/ + 2\<close> the comment runs to the end of input, where
  the lexer reports that the comment is not terminated and returns \<^verbatim>\<open>tok_eof\<close>. The tokens
  are those of \<^verbatim>\<open>1\<close>, not those of \<^verbatim>\<open>1 + 2\<close>.
\<close>

theorem skip_block_misses_close_after_star:
  "token_sequence strtod (init_state strtod ''1 /* c **/ + 2'')
     = [(tok_number, [], strtod ''1''), (tok_eof, [], strtod ''1'')]
   \<and> token_sequence strtod (init_state strtod ''1 + 2'')
     = [(tok_number, [], strtod ''1''), (ord CHR ''+'', [], strtod ''1''),
        (tok_number, [], strtod ''2''), (tok_eof, [], strtod ''2'')]
   \<and> stderr (snd (getTok strtod (snd (getTok strtod (init_state strtod ''1 /* c **/ + 2'')))))
     = [''Error: Unterminated multi-line comment'']"
  by (simp add: lex_eval)

section \<open>The inputs of the specification with two operators\<close>

text \<open>
  The state in which the parser starts: \<^verbatim>\<open>main\<close> has read the first token.
\<close>

definition primed :: "(string \<Rightarrow> 'd) \<Rightarrow> string \<Rightarrow> 'd state" where
  "primed strtod inp = getNextToken strtod (init_state strtod inp)"

text \<open>The parser reads \<^verbatim>\<open>1-2-3\<close> as \<^verbatim>\<open>(1-2)-3\<close> and \<^verbatim>\<open>1+2*3\<close> as \<^verbatim>\<open>1+(2*3)\<close>.\<close>

lemma ParseExpression_sub_sub:
  "map_option fst (ParseExpression 5 strtod (primed strtod ''1-2-3'')) =
     Some (Some (BinaryExprAST CHR ''-''
                   (BinaryExprAST CHR ''-'' (NumberExprAST (strtod ''1'')) (NumberExprAST (strtod ''2'')))
                   (NumberExprAST (strtod ''3''))))"
  by (simp add: primed_def parse_eval)

lemma ParseExpression_add_mul:
  "map_option fst (ParseExpression 6 strtod (primed strtod ''1+2*3'')) =
     Some (Some (BinaryExprAST CHR ''+''
                   (NumberExprAST (strtod ''1''))
                   (BinaryExprAST CHR ''*'' (NumberExprAST (strtod ''2'')) (NumberExprAST (strtod ''3'')))))"
  by (simp add: primed_def parse_eval)

section \<open>Precedence climbing\<close>

text \<open>
  The bound on the depth of calls does not change what a parse function returns: with a
  larger bound it returns the same. First one step for each of the six functions, from
  the same statement for the functions it calls.
\<close>

lemma mono_ParseExpression:
  assumes P: "\<And>s r. ParsePrimary n strtod s = Some r \<Longrightarrow> ParsePrimary (Suc n) strtod s = Some r"
    and B: "\<And>p LHS s r. ParseBinOpRHS n strtod p LHS s = Some r
              \<Longrightarrow> ParseBinOpRHS (Suc n) strtod p LHS s = Some r"
    and eq: "ParseExpression (Suc n) strtod s = Some r"
  shows "ParseExpression (Suc (Suc n)) strtod s = Some r"
proof (cases "ParsePrimary n strtod s")
  case None
  with eq show ?thesis by simp
next
  case (Some a)
  obtain x s1 where a: "a = (x, s1)" by (cases a)
  have p: "ParsePrimary (Suc n) strtod s = Some (x, s1)" using P Some a by simp
  show ?thesis
  proof (cases x)
    case None
    with eq Some a have "r = (None, s1)" by simp
    with p None show ?thesis by (simp del: ParsePrimary.simps)
  next
    case (Some LHS)
    with eq \<open>ParsePrimary n strtod s = Some a\<close> a
    have "ParseBinOpRHS n strtod 0 LHS s1 = Some r" by simp
    then have "ParseBinOpRHS (Suc n) strtod 0 LHS s1 = Some r" by (rule B)
    with p Some show ?thesis
      by (subst ParseExpression.simps) (simp del: ParsePrimary.simps ParseBinOpRHS.simps)
  qed
qed

lemma mono_ParsePrimary:
  assumes I: "\<And>s r. ParseIdentifierExpr n strtod s = Some r \<Longrightarrow> ParseIdentifierExpr (Suc n) strtod s = Some r"
    and N: "\<And>s r. ParseParenExpr n strtod s = Some r \<Longrightarrow> ParseParenExpr (Suc n) strtod s = Some r"
    and eq: "ParsePrimary (Suc n) strtod s = Some r"
  shows "ParsePrimary (Suc (Suc n)) strtod s = Some r"
  using eq I [of s r] N [of s r]
  by (simp del: ParseIdentifierExpr.simps ParseParenExpr.simps split: if_splits)

lemma mono_ParseIdentifierExpr:
  assumes A: "\<And>Args s r. ParseArgs n strtod Args s = Some r \<Longrightarrow> ParseArgs (Suc n) strtod Args s = Some r"
    and eq: "ParseIdentifierExpr (Suc n) strtod s = Some r"
  shows "ParseIdentifierExpr (Suc (Suc n)) strtod s = Some r"
proof -
  let ?s2 = "getNextToken strtod (getNextToken strtod s)"
  show ?thesis
  proof (cases "ParseArgs n strtod [] ?s2")
    case None
    with eq show ?thesis by (simp add: Let_def del: ParseArgs.simps split: if_splits)
  next
    case (Some a)
    then have "ParseArgs (Suc n) strtod [] ?s2 = Some a" by (rule A)
    with eq Some show ?thesis by (simp add: Let_def del: ParseArgs.simps split: if_splits)
  qed
qed

lemma mono_ParseArgs:
  assumes E: "\<And>s r. ParseExpression n strtod s = Some r \<Longrightarrow> ParseExpression (Suc n) strtod s = Some r"
    and A: "\<And>Args s r. ParseArgs n strtod Args s = Some r \<Longrightarrow> ParseArgs (Suc n) strtod Args s = Some r"
    and eq: "ParseArgs (Suc n) strtod Args s = Some r"
  shows "ParseArgs (Suc (Suc n)) strtod Args s = Some r"
proof (cases "ParseExpression n strtod s")
  case None
  with eq show ?thesis by simp
next
  case (Some a)
  obtain x s1 where a: "a = (x, s1)" by (cases a)
  have e: "ParseExpression (Suc n) strtod s = Some (x, s1)" using E Some a by simp
  show ?thesis
  proof (cases x)
    case None
    with eq Some a have "r = (None, s1)" by simp
    with e None show ?thesis by (simp del: ParseExpression.simps)
  next
    case (Some Arg)
    show ?thesis
    proof (cases "CurTok s1 = ord CHR '')'' \<or> CurTok s1 \<noteq> ord CHR '',''")
      case True
      with eq \<open>ParseExpression n strtod s = Some a\<close> a Some
      have "r = (if CurTok s1 = ord CHR '')'' then (Some (Args @ [Arg]), s1)
                 else (None, LogError ''Expected ',' or ')' in argument list'' s1))"
        by auto
      with True e Some show ?thesis
        by (auto simp del: ParseExpression.simps)
    next
      case False
      with eq \<open>ParseExpression n strtod s = Some a\<close> a Some
      have "ParseArgs n strtod (Args @ [Arg]) (getNextToken strtod s1) = Some r" by simp
      then have "ParseArgs (Suc n) strtod (Args @ [Arg]) (getNextToken strtod s1) = Some r" by (rule A)
      moreover have "ParseArgs (Suc (Suc n)) strtod Args s
                       = ParseArgs (Suc n) strtod (Args @ [Arg]) (getNextToken strtod s1)"
        using False e Some
        by (subst ParseArgs.simps) (simp del: ParseExpression.simps ParseArgs.simps)
      ultimately show ?thesis by (simp only:)
    qed
  qed
qed

lemma mono_ParseParenExpr:
  assumes E: "\<And>s r. ParseExpression n strtod s = Some r \<Longrightarrow> ParseExpression (Suc n) strtod s = Some r"
    and eq: "ParseParenExpr (Suc n) strtod s = Some r"
  shows "ParseParenExpr (Suc (Suc n)) strtod s = Some r"
proof (cases "ParseExpression n strtod (getNextToken strtod s)")
  case None
  with eq show ?thesis by simp
next
  case (Some a)
  then have "ParseExpression (Suc n) strtod (getNextToken strtod s) = Some a" by (rule E)
  with eq Some show ?thesis by (simp del: ParseExpression.simps)
qed

lemma mono_ParseBinOpRHS:
  assumes P: "\<And>s r. ParsePrimary n strtod s = Some r \<Longrightarrow> ParsePrimary (Suc n) strtod s = Some r"
    and B: "\<And>p LHS s r. ParseBinOpRHS n strtod p LHS s = Some r
              \<Longrightarrow> ParseBinOpRHS (Suc n) strtod p LHS s = Some r"
    and eq: "ParseBinOpRHS (Suc n) strtod p LHS s = Some r"
  shows "ParseBinOpRHS (Suc (Suc n)) strtod p LHS s = Some r"
proof -
  obtain TokPrec s1 where t: "GetTokPrecedence s = (TokPrec, s1)" by (cases "GetTokPrecedence s")
  show ?thesis
  proof (cases "TokPrec < p")
    case True
    with eq t show ?thesis by simp
  next
    case False
    let ?s2 = "getNextToken strtod s1"
    show ?thesis
    proof (cases "ParsePrimary n strtod ?s2")
      case None
      with eq t False show ?thesis by simp
    next
      case (Some a)
      obtain x s3 where a: "a = (x, s3)" by (cases a)
      have pp: "ParsePrimary (Suc n) strtod ?s2 = Some (x, s3)" using P Some a by simp
      show ?thesis
      proof (cases x)
        case None
        with eq t False Some a have "r = (None, s3)" by simp
        with t False pp None show ?thesis by (simp del: ParsePrimary.simps)
      next
        case (Some RHS)
        obtain NextPrec s4 where q: "GetTokPrecedence s3 = (NextPrec, s4)"
          by (cases "GetTokPrecedence s3")
        let ?op = "char_of (CurTok s1) :: char"
        note pn = \<open>ParsePrimary n strtod ?s2 = Some a\<close>
        show ?thesis
        proof (cases "TokPrec < NextPrec")
          case nohigher: False
          with eq t False pn a Some q
          have "ParseBinOpRHS n strtod p (BinaryExprAST ?op LHS RHS) s4 = Some r"
            by (simp add: Let_def)
          then have "ParseBinOpRHS (Suc n) strtod p (BinaryExprAST ?op LHS RHS) s4 = Some r" by (rule B)
          with t False pp Some q nohigher show ?thesis
            by (subst ParseBinOpRHS.simps)
              (simp add: Let_def del: ParsePrimary.simps ParseBinOpRHS.simps)
        next
          case higher: True
          show ?thesis
          proof (cases "ParseBinOpRHS n strtod (TokPrec + 1) RHS s4")
            case None
            with eq t False pn a Some q higher show ?thesis by (simp add: Let_def)
          next
            case (Some b)
            obtain y s5 where b: "b = (y, s5)" by (cases b)
            have bb: "ParseBinOpRHS (Suc n) strtod (TokPrec + 1) RHS s4 = Some (y, s5)"
              using B [of "TokPrec + 1" RHS s4 "(y, s5)"] Some b by (simp del: ParseBinOpRHS.simps)
            note bn = \<open>ParseBinOpRHS n strtod (TokPrec + 1) RHS s4 = Some b\<close>
            show ?thesis
            proof (cases y)
              case None
              with eq t False pn a \<open>x = Some RHS\<close> q higher bn b
              have "r = (None, s5)" by (simp add: Let_def)
              with t False pp \<open>x = Some RHS\<close> q higher bb None show ?thesis
                by (subst ParseBinOpRHS.simps)
              (simp add: Let_def del: ParsePrimary.simps ParseBinOpRHS.simps)
            next
              case (Some RHS')
              with eq t False pn a \<open>x = Some RHS\<close> q higher bn b
              have "ParseBinOpRHS n strtod p (BinaryExprAST ?op LHS RHS') s5 = Some r"
                by (simp add: Let_def)
              then have "ParseBinOpRHS (Suc n) strtod p (BinaryExprAST ?op LHS RHS') s5 = Some r"
                by (rule B)
              with t False pp \<open>x = Some RHS\<close> q higher bb Some show ?thesis
                by (subst ParseBinOpRHS.simps)
              (simp add: Let_def del: ParsePrimary.simps ParseBinOpRHS.simps)
            qed
          qed
        qed
      qed
    qed
  qed
qed

lemma parser_mono_Suc:
  "(\<forall>s r. ParseExpression n strtod s = Some r \<longrightarrow> ParseExpression (Suc n) strtod s = Some r)
   \<and> (\<forall>s r. ParsePrimary n strtod s = Some r \<longrightarrow> ParsePrimary (Suc n) strtod s = Some r)
   \<and> (\<forall>s r. ParseIdentifierExpr n strtod s = Some r \<longrightarrow> ParseIdentifierExpr (Suc n) strtod s = Some r)
   \<and> (\<forall>Args s r. ParseArgs n strtod Args s = Some r \<longrightarrow> ParseArgs (Suc n) strtod Args s = Some r)
   \<and> (\<forall>s r. ParseParenExpr n strtod s = Some r \<longrightarrow> ParseParenExpr (Suc n) strtod s = Some r)
   \<and> (\<forall>p LHS s r. ParseBinOpRHS n strtod p LHS s = Some r
         \<longrightarrow> ParseBinOpRHS (Suc n) strtod p LHS s = Some r)"
proof (induction n)
  case 0
  show ?case by simp
next
  case (Suc n)
  have E: "ParseExpression (Suc n) strtod s = Some r" if "ParseExpression n strtod s = Some r" for s r
    using Suc.IH [THEN conjunct1] that by blast
  have P: "ParsePrimary (Suc n) strtod s = Some r" if "ParsePrimary n strtod s = Some r" for s r
    using Suc.IH [THEN conjunct2, THEN conjunct1] that by blast
  have I: "ParseIdentifierExpr (Suc n) strtod s = Some r"
    if "ParseIdentifierExpr n strtod s = Some r" for s r
    using Suc.IH [THEN conjunct2, THEN conjunct2, THEN conjunct1] that by blast
  have A: "ParseArgs (Suc n) strtod Args s = Some r" if "ParseArgs n strtod Args s = Some r" for Args s r
    using Suc.IH [THEN conjunct2, THEN conjunct2, THEN conjunct2, THEN conjunct1] that by blast
  have N: "ParseParenExpr (Suc n) strtod s = Some r" if "ParseParenExpr n strtod s = Some r" for s r
    using Suc.IH [THEN conjunct2, THEN conjunct2, THEN conjunct2, THEN conjunct2, THEN conjunct1] that
    by blast
  have B: "ParseBinOpRHS (Suc n) strtod p LHS s = Some r"
    if "ParseBinOpRHS n strtod p LHS s = Some r" for p LHS s r
    using Suc.IH [THEN conjunct2, THEN conjunct2, THEN conjunct2, THEN conjunct2, THEN conjunct2] that
    by blast
  show ?case
  proof (intro conjI allI impI)
    fix s r
    assume a: "ParseExpression (Suc n) strtod s = Some r"
    show "ParseExpression (Suc (Suc n)) strtod s = Some r"
      by (rule mono_ParseExpression [where n = n]) (fact a | blast intro: P B)+
  next
    fix s r
    assume a: "ParsePrimary (Suc n) strtod s = Some r"
    show "ParsePrimary (Suc (Suc n)) strtod s = Some r"
      by (rule mono_ParsePrimary [where n = n]) (fact a | blast intro: I N)+
  next
    fix s r
    assume a: "ParseIdentifierExpr (Suc n) strtod s = Some r"
    show "ParseIdentifierExpr (Suc (Suc n)) strtod s = Some r"
      by (rule mono_ParseIdentifierExpr [where n = n]) (fact a | blast intro: A)+
  next
    fix Args s r
    assume a: "ParseArgs (Suc n) strtod Args s = Some r"
    show "ParseArgs (Suc (Suc n)) strtod Args s = Some r"
      by (rule mono_ParseArgs [where n = n]) (fact a | blast intro: E A)+
  next
    fix s r
    assume a: "ParseParenExpr (Suc n) strtod s = Some r"
    show "ParseParenExpr (Suc (Suc n)) strtod s = Some r"
      by (rule mono_ParseParenExpr [where n = n]) (fact a | blast intro: E)+
  next
    fix p LHS s r
    assume a: "ParseBinOpRHS (Suc n) strtod p LHS s = Some r"
    show "ParseBinOpRHS (Suc (Suc n)) strtod p LHS s = Some r"
      by (rule mono_ParseBinOpRHS [where n = n]) (fact a | blast intro: P B)+
  qed
qed

lemma ParsePrimary_mono:
  assumes "ParsePrimary k strtod s = Some r" and "k \<le> n"
  shows "ParsePrimary n strtod s = Some r"
proof -
  have "ParsePrimary (k + d) strtod s = Some r" for d
  proof (induction d)
    case 0
    show ?case using assms(1) by simp
  next
    case (Suc d)
    then show ?case
      using parser_mono_Suc [of "k + d" strtod, THEN conjunct2, THEN conjunct1]
      by (cases r) (simp del: ParsePrimary.simps)
  qed
  from this [of "n - k"] assms(2) show ?thesis by simp
qed

lemma ParseExpression_mono:
  assumes "ParseExpression k strtod s = Some r" and "k \<le> n"
  shows "ParseExpression n strtod s = Some r"
proof -
  have "ParseExpression (k + d) strtod s = Some r" for d
  proof (induction d)
    case 0
    show ?case using assms(1) by simp
  next
    case (Suc d)
    then show ?case
      using parser_mono_Suc [of "k + d" strtod, THEN conjunct1]
      by (cases r) (simp del: ParseExpression.simps)
  qed
  from this [of "n - k"] assms(2) show ?thesis by simp
qed

lemma ParseBinOpRHS_mono:
  assumes "ParseBinOpRHS k strtod p LHS s = Some r" and "k \<le> n"
  shows "ParseBinOpRHS n strtod p LHS s = Some r"
proof -
  have "ParseBinOpRHS (k + d) strtod p LHS s = Some r" for d
  proof (induction d)
    case 0
    show ?case using assms(1) by simp
  next
    case (Suc d)
    then show ?case
      using parser_mono_Suc [of "k + d" strtod, THEN conjunct2, THEN conjunct2, THEN conjunct2,
          THEN conjunct2, THEN conjunct2]
      by (cases r) (simp del: ParseBinOpRHS.simps)
  qed
  from this [of "n - k"] assms(2) show ?thesis by simp
qed

text \<open>
  A second lookup of the precedence of the current token returns the same and changes
  nothing: the first one has inserted the key when it was absent.
\<close>

lemma GetTokPrecedence_again:
  assumes "GetTokPrecedence s = (t, s1)"
  shows "GetTokPrecedence s1 = (t, s1)"
proof (cases "isascii (CurTok s)")
  case False
  with assms show ?thesis by (auto simp: GetTokPrecedence_def)
next
  case True
  let ?k = "char_of (CurTok s) :: char"
  obtain v m' where sub: "subscript 0 (BinopPrecedence s) ?k = (v, m')"
    by (cases "subscript 0 (BinopPrecedence s) ?k")
  have m': "m' ?k = Some v"
    using sub by (auto simp: subscript_def split: option.splits)
  have s1: "s1 = s\<lparr>BinopPrecedence := m'\<rparr>" and t: "t = (if v \<le> 0 then - 1 else v)"
    using assms True sub by (auto simp: GetTokPrecedence_def Let_def split: if_splits)
  show ?thesis
    using True m' by (simp add: GetTokPrecedence_def s1 t subscript_def)
qed

text \<open>
  The tree that precedence and left associativity give to a chain
  \<open>L op\<^sub>1 R\<^sub>1 op\<^sub>2 R\<^sub>2 \<dots>\<close>, independently of how it is parsed. The chain is the list of the
  operators, each with its precedence and its right operand. The root of the tree is the
  last operator of lowest precedence: \<open>upto_root\<close> is the chain up to and including it,
  \<open>after_root\<close> the rest. Its left subtree is the tree of what comes before it, and its
  right subtree the tree of its right operand with what comes after it.
\<close>

definition op_prec :: "char \<times> int \<times> 'd ExprAST \<Rightarrow> int" where
  "op_prec x = fst (snd x)"

definition after_root :: "(char \<times> int \<times> 'd ExprAST) list \<Rightarrow> (char \<times> int \<times> 'd ExprAST) list" where
  "after_root ops = rev (takeWhile (\<lambda>x. Min (op_prec ` set ops) < op_prec x) (rev ops))"

definition upto_root :: "(char \<times> int \<times> 'd ExprAST) list \<Rightarrow> (char \<times> int \<times> 'd ExprAST) list" where
  "upto_root ops = rev (dropWhile (\<lambda>x. Min (op_prec ` set ops) < op_prec x) (rev ops))"

lemma upto_root_after_root: "upto_root ops @ after_root ops = ops"
proof -
  have "rev (upto_root ops @ after_root ops) = rev ops"
    by (simp add: upto_root_def after_root_def)
  then show ?thesis by (simp only: rev_is_rev_conv)
qed

lemma upto_root_nonempty:
  assumes "ops \<noteq> []"
  shows "upto_root ops \<noteq> []"
proof -
  have "Min (op_prec ` set ops) \<in> op_prec ` set ops"
    using assms by (intro Min_in) auto
  then obtain x where "x \<in> set ops" and "op_prec x = Min (op_prec ` set ops)" by auto
  then have "\<exists>x\<in>set (rev ops). \<not> Min (op_prec ` set ops) < op_prec x" by force
  then show ?thesis by (simp add: upto_root_def)
qed

lemma length_upto_root: "length (upto_root ops) + length (after_root ops) = length ops"
  using arg_cong [OF upto_root_after_root [of ops], of length] by simp

function precedence_tree :: "'d ExprAST \<Rightarrow> (char \<times> int \<times> 'd ExprAST) list \<Rightarrow> 'd ExprAST" where
  "precedence_tree L [] = L"
| "precedence_tree L (x # xs) =
     (case last (upto_root (x # xs)) of
        (c, q, R) \<Rightarrow>
          BinaryExprAST c (precedence_tree L (butlast (upto_root (x # xs))))
                          (precedence_tree R (after_root (x # xs))))"
  by pat_completeness auto
termination
proof (relation "measure (\<lambda>(L, ops). length ops)", goal_cases)
  case 1
  show ?case by simp
next
  case (2 L x xs)
  have "upto_root (x # xs) \<noteq> []" by (rule upto_root_nonempty) simp
  then have "length (butlast (upto_root (x # xs))) < length (upto_root (x # xs))" by simp
  also have "\<dots> \<le> length (x # xs)" using length_upto_root [of "x # xs"] by simp
  finally show ?case by simp
next
  case (3 L x xs)
  have "upto_root (x # xs) \<noteq> []" by (rule upto_root_nonempty) simp
  then obtain u us where "upto_root (x # xs) = u # us" by (cases "upto_root (x # xs)") simp_all
  then have "length (after_root (x # xs)) < length (x # xs)"
    using length_upto_root [of "x # xs"] by simp
  then show ?case by simp
qed

declare precedence_tree.simps(2) [simp del]

text \<open>
  The equation that characterises the tree: an operator whose precedence is at most that
  of each operator before it, and less than that of each operator after it, is the root.
  Every chain that is not empty has such an operator.
\<close>

lemma precedence_tree_root:
  assumes "\<forall>x\<in>set pre. q \<le> op_prec x" and "\<forall>x\<in>set post. q < op_prec x"
  shows "precedence_tree L (pre @ (c, q, R) # post)
           = BinaryExprAST c (precedence_tree L pre) (precedence_tree R post)"
proof -
  let ?ops = "pre @ (c, q, R) # post"
  have m: "Min (op_prec ` set ?ops) = q"
  proof (rule Min_eqI)
    show "finite (op_prec ` set ?ops)" by simp
    show "q \<le> y" if "y \<in> op_prec ` set ?ops" for y
      using that assms by (auto simp: op_prec_def)
    show "q \<in> op_prec ` set ?ops" by (force simp: op_prec_def)
  qed
  have r: "rev ?ops = rev post @ (c, q, R) # rev pre" by simp
  have p: "\<forall>x\<in>set (rev post). q < op_prec x" using assms(2) by simp
  have "takeWhile (\<lambda>x. q < op_prec x) (rev post @ (c, q, R) # rev pre)
          = rev post @ takeWhile (\<lambda>x. q < op_prec x) ((c, q, R) # rev pre)"
    by (rule takeWhile_append2) (use p in blast)
  then have "takeWhile (\<lambda>x. q < op_prec x) (rev post @ (c, q, R) # rev pre) = rev post"
    by (simp add: op_prec_def)
  then have a: "after_root ?ops = post"
    unfolding after_root_def m r by simp
  have "dropWhile (\<lambda>x. q < op_prec x) (rev post @ (c, q, R) # rev pre)
          = dropWhile (\<lambda>x. q < op_prec x) ((c, q, R) # rev pre)"
    by (rule dropWhile_append2) (use p in blast)
  then have "dropWhile (\<lambda>x. q < op_prec x) (rev post @ (c, q, R) # rev pre) = (c, q, R) # rev pre"
    by (simp add: op_prec_def)
  then have u: "upto_root ?ops = pre @ [(c, q, R)]"
    unfolding upto_root_def m r by simp
  obtain x xs where c: "?ops = x # xs" by (cases ?ops) simp_all
  have "precedence_tree L ?ops
          = (case last (upto_root ?ops) of
               (c, q, R) \<Rightarrow>
                 BinaryExprAST c (precedence_tree L (butlast (upto_root ?ops)))
                                 (precedence_tree R (after_root ?ops)))"
    unfolding c by (rule precedence_tree.simps(2))
  then show ?thesis by (simp add: a u)
qed

lemma root_exists:
  "ops \<noteq> [] \<Longrightarrow>
   \<exists>pre c q R post. ops = pre @ (c, q, R) # post \<and> (\<forall>x\<in>set pre. q \<le> op_prec x)
      \<and> (\<forall>x\<in>set post. q < op_prec x)"
proof (induction ops rule: rev_induct)
  case Nil
  then show ?case by simp
next
  case (snoc y ys)
  obtain c' q' R' where y: "y = (c', q', R')" by (cases y)
  show ?case
  proof (cases "ys = []")
    case True
    then have "ys @ [y] = [] @ (c', q', R') # []" by (simp add: y)
    then show ?thesis by (metis empty_iff set_empty2)
  next
    case False
    from snoc.IH [OF this] obtain pre c q R post
      where ys: "ys = pre @ (c, q, R) # post" and pre: "\<forall>x\<in>set pre. q \<le> op_prec x"
        and post: "\<forall>x\<in>set post. q < op_prec x" by blast
    show ?thesis
    proof (cases "q' \<le> q")
      case True
      have "ys @ [y] = ys @ (c', q', R') # []" by (simp add: y)
      moreover have "\<forall>x\<in>set ys. q' \<le> op_prec x"
        using True pre post by (auto simp: ys op_prec_def)
      ultimately show ?thesis by (metis empty_iff set_empty2)
    next
      case False
      have "ys @ [y] = pre @ (c, q, R) # (post @ [y])" by (simp add: ys)
      moreover have "\<forall>x\<in>set (post @ [y]). q < op_prec x"
        using False post by (auto simp: y op_prec_def)
      ultimately show ?thesis using pre by blast
    qed
  qed
qed

text \<open>
  An operator followed by operators of higher precedence only, and then by one that is
  not higher, takes as right operand the tree of those higher operators; the result is the
  left operand of what follows.
\<close>

lemma precedence_tree_climb:
  assumes "\<forall>x\<in>set inner. t < op_prec x" and "rest = [] \<or> op_prec (hd rest) \<le> t"
  shows "precedence_tree L ((c, t, R) # inner @ rest)
           = precedence_tree (BinaryExprAST c L (precedence_tree R inner)) rest"
  using assms(2)
proof (induction "length rest" arbitrary: rest rule: less_induct)
  case less
  show ?case
  proof (cases "rest = []")
    case True
    have "precedence_tree L ([] @ (c, t, R) # inner)
            = BinaryExprAST c (precedence_tree L []) (precedence_tree R inner)"
      by (rule precedence_tree_root) (use assms(1) in simp_all)
    with True show ?thesis by simp
  next
    case False
    from root_exists [OF this] obtain pre c' q' R' post
      where rest: "rest = pre @ (c', q', R') # post" and pre: "\<forall>x\<in>set pre. q' \<le> op_prec x"
        and post: "\<forall>x\<in>set post. q' < op_prec x" by blast
    have hd: "op_prec (hd rest) \<le> t" using less.prems False by simp
    have q't: "q' \<le> t"
    proof (cases pre)
      case Nil
      with hd rest show ?thesis by (simp add: op_prec_def)
    next
      case (Cons a as)
      with hd rest pre show ?thesis by auto
    qed
    have pre': "pre = [] \<or> op_prec (hd pre) \<le> t"
      using hd rest by (cases pre) auto
    have ih: "precedence_tree L ((c, t, R) # inner @ pre)
                = precedence_tree (BinaryExprAST c L (precedence_tree R inner)) pre"
      by (rule less.hyps [OF _ pre']) (simp add: rest)
    have "precedence_tree L (((c, t, R) # inner @ pre) @ (c', q', R') # post)
            = BinaryExprAST c' (precedence_tree L ((c, t, R) # inner @ pre)) (precedence_tree R' post)"
    proof (rule precedence_tree_root)
      show "\<forall>x\<in>set ((c, t, R) # inner @ pre). q' \<le> op_prec x"
        using q't assms(1) pre by (auto simp: op_prec_def)
      show "\<forall>x\<in>set post. q' < op_prec x" by (rule post)
    qed
    moreover have "precedence_tree (BinaryExprAST c L (precedence_tree R inner)) (pre @ (c', q', R') # post)
            = BinaryExprAST c' (precedence_tree (BinaryExprAST c L (precedence_tree R inner)) pre)
                (precedence_tree R' post)"
      using pre post by (rule precedence_tree_root)
    ultimately show ?thesis by (simp add: rest ih)
  qed
qed

text \<open>
  The trees of the two chains of the specification.
\<close>

lemma precedence_tree_example:
  "precedence_tree (NumberExprAST a)
     [(CHR ''+'', 20, NumberExprAST b), (CHR ''*'', 40, NumberExprAST c)]
     = BinaryExprAST CHR ''+'' (NumberExprAST a) (BinaryExprAST CHR ''*'' (NumberExprAST b) (NumberExprAST c))"
  "precedence_tree (NumberExprAST a)
     [(CHR ''-'', 20, NumberExprAST b), (CHR ''-'', 20, NumberExprAST c)]
     = BinaryExprAST CHR ''-'' (BinaryExprAST CHR ''-'' (NumberExprAST a) (NumberExprAST b)) (NumberExprAST c)"
  by (simp_all add: precedence_tree.simps(2) upto_root_def after_root_def op_prec_def)

text \<open>
  \<open>operands k strtod s ops s'\<close>: in the state \<open>s\<close> the tokens to come are the chain \<open>ops\<close>. The
  current token is an operator with the precedence that \<^verbatim>\<open>GetTokPrecedence\<close> returns for
  it, \<^verbatim>\<open>ParsePrimary\<close> (with the bound \<open>k\<close>) returns its right operand from the token after
  it, and so on, until a token for which \<^verbatim>\<open>GetTokPrecedence\<close> returns -1, leaving the
  state \<open>s'\<close>.
\<close>

fun operands :: "nat \<Rightarrow> (string \<Rightarrow> 'd) \<Rightarrow> 'd state \<Rightarrow> (char \<times> int \<times> 'd ExprAST) list
                 \<Rightarrow> 'd state \<Rightarrow> bool" where
  "operands k strtod s [] s' \<longleftrightarrow> GetTokPrecedence s = (- 1, s')"
| "operands k strtod s ((c, p, R) # ops) s' \<longleftrightarrow>
     (case GetTokPrecedence s of
        (t, s1) \<Rightarrow>
          t = p \<and> 0 < p \<and> c = char_of (CurTok s1)
          \<and> (case ParsePrimary k strtod (getNextToken strtod s1) of
                Some (Some R', s3) \<Rightarrow> R' = R \<and> operands k strtod s3 ops s'
              | _ \<Rightarrow> False))"

lemma operands_NilD:
  "operands k strtod s [] s' \<Longrightarrow> GetTokPrecedence s = (t, s1) \<Longrightarrow> t = - 1 \<and> s1 = s'"
  by simp

lemma operands_ConsD:
  assumes "operands k strtod s (x # rest) s'" and "GetTokPrecedence s = (t, s1)"
  shows "\<exists>R s3. x = (char_of (CurTok s1), t, R) \<and> 0 < t
           \<and> ParsePrimary k strtod (getNextToken strtod s1) = Some (Some R, s3)
           \<and> operands k strtod s3 rest s'"
proof -
  obtain c p R where x: "x = (c, p, R)" by (cases x)
  show ?thesis
    using assms unfolding x
    by (auto simp del: ParsePrimary.simps split: option.splits prod.splits)
qed

lemma operands_GetTokPrecedence:
  assumes "operands k strtod s ops s'" and "GetTokPrecedence s = (t, s1)"
  shows "operands k strtod s1 ops s'"
proof (cases ops)
  case Nil
  with assms GetTokPrecedence_again [OF assms(2)] show ?thesis by simp
next
  case (Cons x rest)
  obtain c p R where x: "x = (c, p, R)" by (cases x)
  show ?thesis
    using assms GetTokPrecedence_again [OF assms(2)] unfolding Cons x
    by (simp del: ParsePrimary.simps)
qed

lemma hd_takeWhile: "takeWhile P xs \<noteq> [] \<Longrightarrow> xs \<noteq> [] \<and> hd (takeWhile P xs) = hd xs"
  by (cases xs) (auto split: if_splits)

text \<open>
  \<^verbatim>\<open>ParseBinOpRHS\<close> with the minimal precedence \<open>p\<close> consumes the operators of the
  chain up to the first one whose precedence is less than \<open>p\<close>, returns the tree of what it
  has consumed, and leaves the rest of the chain.
\<close>

lemma ParseBinOpRHS_climb:
  assumes "operands k strtod s ops s'" and "0 \<le> p" and "k + length ops < n"
  shows "\<exists>mid. ParseBinOpRHS n strtod p LHS s
                  = Some (Some (precedence_tree LHS (takeWhile (\<lambda>x. p \<le> op_prec x) ops)), mid)
               \<and> operands k strtod mid (dropWhile (\<lambda>x. p \<le> op_prec x) ops) s'
               \<and> snd (GetTokPrecedence mid) = mid"
  using assms
proof (induction "length ops" arbitrary: ops p LHS s n rule: less_induct)
  case less
  from less.prems(3) obtain m where n: "n = Suc m" and m: "k + length ops \<le> m"
    by (cases n) auto
  obtain t s1 where t: "GetTokPrecedence s = (t, s1)" by (cases "GetTokPrecedence s")
  note again = GetTokPrecedence_again [OF t]
  have o1: "operands k strtod s1 ops s'"
    by (rule operands_GetTokPrecedence [OF less.prems(1) t])
  show ?case
  proof (cases "t < p")
    case True
    have r: "ParseBinOpRHS n strtod p LHS s = Some (Some LHS, s1)"
      using t True by (simp add: n)
    have "ops = [] \<or> \<not> p \<le> op_prec (hd ops)"
    proof (cases ops)
      case Nil
      then show ?thesis by simp
    next
      case (Cons x rest)
      from operands_ConsD [OF less.prems(1) [unfolded Cons] t] True show ?thesis
        by (auto simp: Cons op_prec_def)
    qed
    then have tw: "takeWhile (\<lambda>x. p \<le> op_prec x) ops = []"
      and dw: "dropWhile (\<lambda>x. p \<le> op_prec x) ops = ops"
      by (cases ops; auto)+
    show ?thesis
      unfolding tw dw r using o1 again by simp
  next
    case False
    have "ops \<noteq> []"
    proof
      assume "ops = []"
      with less.prems(1) t have "t = - 1" by simp
      with False less.prems(2) show False by simp
    qed
    then obtain x rest where ops: "ops = x # rest" by (cases ops) auto
    from operands_ConsD [OF less.prems(1) [unfolded ops] t] obtain R s3
      where x: "x = (char_of (CurTok s1), t, R)" and pos: "0 < t"
        and prim: "ParsePrimary k strtod (getNextToken strtod s1) = Some (Some R, s3)"
        and o3: "operands k strtod s3 rest s'" by blast
    let ?c = "char_of (CurTok s1) :: char"
    have pm: "ParsePrimary m strtod (getNextToken strtod s1) = Some (Some R, s3)"
      using prim by (rule ParsePrimary_mono) (use m in simp)
    obtain q s4 where q: "GetTokPrecedence s3 = (q, s4)" by (cases "GetTokPrecedence s3")
    have o4: "operands k strtod s4 rest s'"
      by (rule operands_GetTokPrecedence [OF o3 q])
    have unf: "ParseBinOpRHS n strtod p LHS s
                = (if t < q then
                     (case ParseBinOpRHS m strtod (t + 1) R s4 of
                        None \<Rightarrow> None
                      | Some (None, s5) \<Rightarrow> Some (None, s5)
                      | Some (Some RHS', s5) \<Rightarrow>
                          ParseBinOpRHS m strtod p (BinaryExprAST ?c LHS RHS') s5)
                   else ParseBinOpRHS m strtod p (BinaryExprAST ?c LHS R) s4)"
      unfolding n using t False pm q
      by (subst ParseBinOpRHS.simps) (simp add: Let_def del: ParseBinOpRHS.simps ParsePrimary.simps)
    have pt: "p \<le> t" using False by simp
    show ?thesis
    proof (cases "t < q")
      case True
      let ?inner = "takeWhile (\<lambda>x. t + 1 \<le> op_prec x) rest"
      let ?rest' = "dropWhile (\<lambda>x. t + 1 \<le> op_prec x) rest"
      have rest: "rest = ?inner @ ?rest'" by simp
      have "\<exists>mid. ParseBinOpRHS m strtod (t + 1) R s4
                  = Some (Some (precedence_tree R ?inner), mid)
               \<and> operands k strtod mid ?rest' s' \<and> snd (GetTokPrecedence mid) = mid"
        by (rule less.hyps [OF _ o4]) (use ops m pos in simp_all)
      then obtain mid1 where r1: "ParseBinOpRHS m strtod (t + 1) R s4
                  = Some (Some (precedence_tree R ?inner), mid1)"
        and o5: "operands k strtod mid1 ?rest' s'" by blast
      let ?L = "BinaryExprAST ?c LHS (precedence_tree R ?inner)"
      have len: "length ?rest' \<le> length rest" by (rule length_dropWhile_le)
      have "\<exists>mid. ParseBinOpRHS m strtod p ?L mid1
                  = Some (Some (precedence_tree ?L (takeWhile (\<lambda>x. p \<le> op_prec x) ?rest')), mid)
               \<and> operands k strtod mid (dropWhile (\<lambda>x. p \<le> op_prec x) ?rest') s'
               \<and> snd (GetTokPrecedence mid) = mid"
        by (rule less.hyps [OF _ o5 less.prems(2)]) (use ops m len in simp_all)
      then obtain mid2 where r2: "ParseBinOpRHS m strtod p ?L mid1
                  = Some (Some (precedence_tree ?L (takeWhile (\<lambda>x. p \<le> op_prec x) ?rest')), mid2)"
        and o6: "operands k strtod mid2 (dropWhile (\<lambda>x. p \<le> op_prec x) ?rest') s'"
        and f2: "snd (GetTokPrecedence mid2) = mid2" by blast
      have inner: "\<forall>x\<in>set ?inner. t < op_prec x"
        using set_takeWhileD [of _ "\<lambda>x. t + 1 \<le> op_prec x" rest] by fastforce
      then have innerp: "\<And>x. x \<in> set ?inner \<Longrightarrow> p \<le> op_prec x"
        using pt by fastforce
      have tw_rest: "takeWhile (\<lambda>x. p \<le> op_prec x) rest
                       = ?inner @ takeWhile (\<lambda>x. p \<le> op_prec x) ?rest'"
        by (subst rest, rule takeWhile_append2) (rule innerp)
      have dw_rest: "dropWhile (\<lambda>x. p \<le> op_prec x) rest = dropWhile (\<lambda>x. p \<le> op_prec x) ?rest'"
        by (subst rest, rule dropWhile_append2) (rule innerp)
      have tw: "takeWhile (\<lambda>x. p \<le> op_prec x) ops
                  = (?c, t, R) # ?inner @ takeWhile (\<lambda>x. p \<le> op_prec x) ?rest'"
        and dw: "dropWhile (\<lambda>x. p \<le> op_prec x) ops = dropWhile (\<lambda>x. p \<le> op_prec x) ?rest'"
        using pt tw_rest dw_rest by (simp_all add: ops x op_prec_def)
      have low: "takeWhile (\<lambda>x. p \<le> op_prec x) ?rest' = []
                 \<or> op_prec (hd (takeWhile (\<lambda>x. p \<le> op_prec x) ?rest')) \<le> t"
      proof (cases "takeWhile (\<lambda>x. p \<le> op_prec x) ?rest' = []")
        case True
        then show ?thesis by simp
      next
        case False
        from hd_takeWhile [OF this] have ne: "?rest' \<noteq> []"
          and h: "hd (takeWhile (\<lambda>x. p \<le> op_prec x) ?rest') = hd ?rest'" by simp_all
        from hd_dropWhile [OF ne] have "\<not> t + 1 \<le> op_prec (hd ?rest')" .
        with h show ?thesis by simp
      qed
      have tree: "precedence_tree LHS (takeWhile (\<lambda>x. p \<le> op_prec x) ops)
                    = precedence_tree ?L (takeWhile (\<lambda>x. p \<le> op_prec x) ?rest')"
        unfolding tw by (rule precedence_tree_climb [OF inner low])
      have "ParseBinOpRHS n strtod p LHS s
              = Some (Some (precedence_tree LHS (takeWhile (\<lambda>x. p \<le> op_prec x) ops)), mid2)"
        unfolding unf tree using True r1 r2 by (simp del: ParseBinOpRHS.simps)
      with o6 f2 show ?thesis unfolding dw by blast
    next
      case nohigher: False
      let ?L = "BinaryExprAST ?c LHS R"
      have "\<exists>mid. ParseBinOpRHS m strtod p ?L s4
                  = Some (Some (precedence_tree ?L (takeWhile (\<lambda>x. p \<le> op_prec x) rest)), mid)
               \<and> operands k strtod mid (dropWhile (\<lambda>x. p \<le> op_prec x) rest) s'
               \<and> snd (GetTokPrecedence mid) = mid"
        by (rule less.hyps [OF _ o4 less.prems(2)]) (use ops m in simp_all)
      then obtain mid where r: "ParseBinOpRHS m strtod p ?L s4
                  = Some (Some (precedence_tree ?L (takeWhile (\<lambda>x. p \<le> op_prec x) rest)), mid)"
        and o6: "operands k strtod mid (dropWhile (\<lambda>x. p \<le> op_prec x) rest) s'"
        and f: "snd (GetTokPrecedence mid) = mid" by blast
      have tw: "takeWhile (\<lambda>x. p \<le> op_prec x) ops
                  = (?c, t, R) # [] @ takeWhile (\<lambda>x. p \<le> op_prec x) rest"
        and dw: "dropWhile (\<lambda>x. p \<le> op_prec x) ops = dropWhile (\<lambda>x. p \<le> op_prec x) rest"
        using pt by (simp_all add: ops x op_prec_def)
      have low: "takeWhile (\<lambda>x. p \<le> op_prec x) rest = []
                 \<or> op_prec (hd (takeWhile (\<lambda>x. p \<le> op_prec x) rest)) \<le> t"
      proof (cases "takeWhile (\<lambda>x. p \<le> op_prec x) rest = []")
        case True
        then show ?thesis by simp
      next
        case False
        from hd_takeWhile [OF this] have ne: "rest \<noteq> []"
          and h: "hd (takeWhile (\<lambda>x. p \<le> op_prec x) rest) = hd rest" by simp_all
        from ne obtain y ys where rest: "rest = y # ys" by (cases rest) auto
        from operands_ConsD [OF o3 [unfolded rest] q] have "op_prec y = q"
          by (auto simp: op_prec_def)
        with h rest nohigher show ?thesis by simp
      qed
      have "precedence_tree LHS (takeWhile (\<lambda>x. p \<le> op_prec x) ops)
              = precedence_tree (BinaryExprAST ?c LHS (precedence_tree R []))
                  (takeWhile (\<lambda>x. p \<le> op_prec x) rest)"
        unfolding tw by (rule precedence_tree_climb [OF _ low]) simp
      then have tree: "precedence_tree LHS (takeWhile (\<lambda>x. p \<le> op_prec x) ops)
              = precedence_tree ?L (takeWhile (\<lambda>x. p \<le> op_prec x) rest)" by simp
      have "ParseBinOpRHS n strtod p LHS s
              = Some (Some (precedence_tree LHS (takeWhile (\<lambda>x. p \<le> op_prec x) ops)), mid)"
        unfolding unf tree using nohigher r by (simp del: ParseBinOpRHS.simps)
      with o6 f show ?thesis unfolding dw by blast
    qed
  qed
qed

lemma operands_positive: "operands k strtod s ops s' \<Longrightarrow> \<forall>x\<in>set ops. 0 < op_prec x"
proof (induction ops arbitrary: s)
  case Nil
  show ?case by simp
next
  case (Cons x rest)
  obtain t s1 where t: "GetTokPrecedence s = (t, s1)" by (cases "GetTokPrecedence s")
  from operands_ConsD [OF Cons.prems t] obtain R s3
    where "x = (char_of (CurTok s1), t, R)" and "0 < t" and "operands k strtod s3 rest s'" by blast
  with Cons.IH [of s3] show ?case by (simp add: op_prec_def)
qed

lemma precedence_tree_left:
  "\<forall>x\<in>set ops. op_prec x = t \<Longrightarrow>
   precedence_tree L ops = foldl (\<lambda>l (c, q, R). BinaryExprAST c l R) L ops"
proof (induction ops rule: rev_induct)
  case Nil
  show ?case by simp
next
  case (snoc y ys)
  obtain c q R where y: "y = (c, q, R)" by (cases y)
  have q: "q = t" using snoc.prems by (simp add: y op_prec_def)
  have "precedence_tree L (ys @ (c, q, R) # [])
          = BinaryExprAST c (precedence_tree L ys) (precedence_tree R [])"
    by (rule precedence_tree_root) (use snoc.prems q in simp_all)
  then show ?case using snoc by (simp add: y)
qed

text \<open>
  C1. Let the tokens to come be a chain of operators and primary expressions, up to a
  token that is no operator. With a bound above the one for the primaries plus the length
  of the chain, \<^verbatim>\<open>ParseBinOpRHS\<close>, called with the minimal precedence 0 as
  \<^verbatim>\<open>ParseExpression\<close> does, returns the tree that precedence and left associativity give
  to the left operand and the chain, and so does \<^verbatim>\<open>ParseExpression\<close> when \<^verbatim>\<open>ParsePrimary\<close>
  returns that left operand. When all operators have the same precedence the tree leans
  to the left: each operator has the tree of all that comes before it as left operand.
  When the operators after the first all have a higher precedence, they take the primary
  parsed after the first operator as their leftmost operand, and their tree is the right
  operand of the first.
\<close>

theorem ParseBinOpRHS_precedence_climbing:
  assumes "operands k strtod s ops s'" and "k + length ops < n"
  shows "ParseBinOpRHS n strtod 0 LHS s = Some (Some (precedence_tree LHS ops), s')
         \<and> (\<forall>s0. ParsePrimary k strtod s0 = Some (Some LHS, s) \<longrightarrow>
               ParseExpression (Suc n) strtod s0 = Some (Some (precedence_tree LHS ops), s'))
         \<and> ((\<forall>x\<in>set ops. op_prec x = t) \<longrightarrow>
               ParseBinOpRHS n strtod 0 LHS s
                 = Some (Some (foldl (\<lambda>l (c, q, R). BinaryExprAST c l R) LHS ops), s'))
         \<and> (\<forall>c q R inner. ops = (c, q, R) # inner \<and> (\<forall>x\<in>set inner. q < op_prec x) \<longrightarrow>
               ParseBinOpRHS n strtod 0 LHS s
                 = Some (Some (BinaryExprAST c LHS (precedence_tree R inner)), s'))"
proof -
  from ParseBinOpRHS_climb [OF assms(1) _ assms(2), of 0 LHS] obtain mid
    where r: "ParseBinOpRHS n strtod 0 LHS s
                = Some (Some (precedence_tree LHS (takeWhile (\<lambda>x. 0 \<le> op_prec x) ops)), mid)"
      and o: "operands k strtod mid (dropWhile (\<lambda>x. 0 \<le> op_prec x) ops) s'"
      and f: "snd (GetTokPrecedence mid) = mid" by auto
  have all: "\<forall>x\<in>set ops. 0 \<le> op_prec x"
    using operands_positive [OF assms(1)] by fastforce
  then have tw: "takeWhile (\<lambda>x. 0 \<le> op_prec x) ops = ops"
    and dw: "dropWhile (\<lambda>x. 0 \<le> op_prec x) ops = []" by simp_all
  from o f have "mid = s'" unfolding dw by simp
  with r have a: "ParseBinOpRHS n strtod 0 LHS s = Some (Some (precedence_tree LHS ops), s')"
    unfolding tw by simp
  have b: "ParseExpression (Suc n) strtod s0 = Some (Some (precedence_tree LHS ops), s')"
    if "ParsePrimary k strtod s0 = Some (Some LHS, s)" for s0
  proof -
    have "ParsePrimary n strtod s0 = Some (Some LHS, s)"
      using that by (rule ParsePrimary_mono) (use assms(2) in simp)
    with a show ?thesis
      by (subst ParseExpression.simps) (simp del: ParsePrimary.simps ParseBinOpRHS.simps)
  qed
  have c: "ParseBinOpRHS n strtod 0 LHS s
             = Some (Some (foldl (\<lambda>l (c, q, R). BinaryExprAST c l R) LHS ops), s')"
    if "\<forall>x\<in>set ops. op_prec x = t"
    using a precedence_tree_left [OF that] by simp
  have d: "ParseBinOpRHS n strtod 0 LHS s
             = Some (Some (BinaryExprAST c LHS (precedence_tree R inner)), s')"
    if "ops = (c, q, R) # inner \<and> (\<forall>x\<in>set inner. q < op_prec x)" for c q R inner
  proof -
    have "precedence_tree LHS ([] @ (c, q, R) # inner)
            = BinaryExprAST c (precedence_tree LHS []) (precedence_tree R inner)"
      by (rule precedence_tree_root) (use that in simp_all)
    with a that show ?thesis by simp
  qed
  from a b c d show ?thesis by blast
qed

text \<open>
  The state at the end of the input, after the number \<open>v\<close> as last token.
\<close>

definition end_of_input :: "string \<Rightarrow> string state" where
  "end_of_input v = (init_state (\<lambda>run. run) [])\<lparr>LastChar := EOF, NumVal := v, CurTok := tok_eof\<rparr>"

theorem ParseBinOpRHS_precedence_climbing_witness:
  "ParseExpression 5 (\<lambda>run. run) (primed (\<lambda>run. run) ''1+2*3'')
     = Some (Some (BinaryExprAST CHR ''+'' (NumberExprAST ''1'')
                     (BinaryExprAST CHR ''*'' (NumberExprAST ''2'') (NumberExprAST ''3''))),
             end_of_input ''3'')
   \<and> ParseExpression 5 (\<lambda>run. run) (primed (\<lambda>run. run) ''1-2-3'')
     = Some (Some (BinaryExprAST CHR ''-''
                     (BinaryExprAST CHR ''-'' (NumberExprAST ''1'') (NumberExprAST ''2''))
                     (NumberExprAST ''3'')),
             end_of_input ''3'')
   \<and> ParseBinOpRHS 4 (\<lambda>run. run) 0 (NumberExprAST ''1'')
         (getNextToken (\<lambda>run. run) (primed (\<lambda>run. run) ''1+2*3''))
     = Some (Some (BinaryExprAST CHR ''+'' (NumberExprAST ''1'')
                     (BinaryExprAST CHR ''*'' (NumberExprAST ''2'') (NumberExprAST ''3''))),
             end_of_input ''3'')
   \<and> ParseBinOpRHS 4 (\<lambda>run. run) 0 (NumberExprAST ''1'')
         (getNextToken (\<lambda>run. run) (primed (\<lambda>run. run) ''1-2-3''))
     = Some (Some (BinaryExprAST CHR ''-''
                     (BinaryExprAST CHR ''-'' (NumberExprAST ''1'') (NumberExprAST ''2''))
                     (NumberExprAST ''3'')),
             end_of_input ''3'')"
proof -
  let ?a = "primed (\<lambda>run. run) ''1+2*3''" and ?b = "primed (\<lambda>run. run) ''1-2-3''"
  let ?sa = "getNextToken (\<lambda>run. run) ?a" and ?sb = "getNextToken (\<lambda>run. run) ?b"
  let ?opsa = "[(CHR ''+'', 20::int, NumberExprAST ''2''), (CHR ''*'', 40, NumberExprAST ''3'')]"
  let ?opsb = "[(CHR ''-'', 20::int, NumberExprAST ''2''), (CHR ''-'', 20, NumberExprAST ''3'')]"
  have pa: "ParsePrimary 1 (\<lambda>run. run) ?a = Some (Some (NumberExprAST ''1''), ?sa)"
    and pb: "ParsePrimary 1 (\<lambda>run. run) ?b = Some (Some (NumberExprAST ''1''), ?sb)"
    by (simp_all add: primed_def parse_eval)
  have oa: "operands 1 (\<lambda>run. run) ?sa ?opsa (end_of_input ''3'')"
    by (simp add: primed_def end_of_input_def parse_eval)
  have ob: "operands 1 (\<lambda>run. run) ?sb ?opsb (end_of_input ''3'')"
    by (simp add: primed_def end_of_input_def parse_eval)
  have ha: "\<forall>x\<in>set [(CHR ''*'', 40, NumberExprAST ''3'')]. (20::int) < op_prec x"
    by (simp add: op_prec_def)
  note A = ParseBinOpRHS_precedence_climbing [OF oa, of 4 "NumberExprAST ''1''"]
  note B = ParseBinOpRHS_precedence_climbing [OF ob, of 4 "NumberExprAST ''1''" 20]
  have ta: "precedence_tree (NumberExprAST ''1'') ?opsa
              = BinaryExprAST CHR ''+'' (NumberExprAST ''1'')
                  (BinaryExprAST CHR ''*'' (NumberExprAST ''2'') (NumberExprAST ''3''))"
    and tb: "precedence_tree (NumberExprAST ''1'') ?opsb
              = BinaryExprAST CHR ''-''
                     (BinaryExprAST CHR ''-'' (NumberExprAST ''1'') (NumberExprAST ''2''))
                     (NumberExprAST ''3'')"
    by (rule precedence_tree_example)+
  have tc: "precedence_tree (NumberExprAST ''2'') [(CHR ''*'', 40, NumberExprAST ''3'')]
              = BinaryExprAST CHR ''*'' (NumberExprAST ''2'') (NumberExprAST ''3'')"
    by (simp add: precedence_tree.simps(2) upto_root_def after_root_def op_prec_def)
  have a: "ParseExpression 5 (\<lambda>run. run) ?a
             = Some (Some (precedence_tree (NumberExprAST ''1'') ?opsa), end_of_input ''3'')"
    using A [THEN conjunct2, THEN conjunct1, rule_format, OF _ pa]
    by (simp del: ParseExpression.simps ParsePrimary.simps ParseBinOpRHS.simps add: eval_nat_numeral)
  have b: "ParseExpression 5 (\<lambda>run. run) ?b
             = Some (Some (precedence_tree (NumberExprAST ''1'') ?opsb), end_of_input ''3'')"
    using B [THEN conjunct2, THEN conjunct1, rule_format, OF _ pb]
    by (simp del: ParseExpression.simps ParsePrimary.simps ParseBinOpRHS.simps add: eval_nat_numeral)
  have "ParseBinOpRHS 4 (\<lambda>run. run) 0 (NumberExprAST ''1'') ?sa
          = Some (Some (BinaryExprAST CHR ''+'' (NumberExprAST ''1'')
                          (precedence_tree (NumberExprAST ''2'') [(CHR ''*'', 40, NumberExprAST ''3'')])),
                  end_of_input ''3'')"
  proof (rule A [THEN conjunct2, THEN conjunct2, THEN conjunct2, rule_format])
    show "1 + length ?opsa < 4" by simp
    show "?opsa = (CHR ''+'', 20, NumberExprAST ''2'') # [(CHR ''*'', 40, NumberExprAST ''3'')]
          \<and> (\<forall>x\<in>set [(CHR ''*'', 40, NumberExprAST ''3'')]. 20 < op_prec x)"
      using ha by simp
  qed
  then have c: "ParseBinOpRHS 4 (\<lambda>run. run) 0 (NumberExprAST ''1'') ?sa
          = Some (Some (BinaryExprAST CHR ''+'' (NumberExprAST ''1'')
                          (BinaryExprAST CHR ''*'' (NumberExprAST ''2'') (NumberExprAST ''3''))),
                  end_of_input ''3'')"
    unfolding tc .
  have d: "ParseBinOpRHS 4 (\<lambda>run. run) 0 (NumberExprAST ''1'') ?sb
          = Some (Some (BinaryExprAST CHR ''-''
                     (BinaryExprAST CHR ''-'' (NumberExprAST ''1'') (NumberExprAST ''2''))
                     (NumberExprAST ''3'')),
                  end_of_input ''3'')"
  proof -
    have "ParseBinOpRHS 4 (\<lambda>run. run) 0 (NumberExprAST ''1'') ?sb
            = Some (Some (foldl (\<lambda>l (c, q, R). BinaryExprAST c l R) (NumberExprAST ''1'') ?opsb),
                    end_of_input ''3'')"
      by (rule B [THEN conjunct2, THEN conjunct2, THEN conjunct1, rule_format])
        (auto simp: op_prec_def)
    then show ?thesis by (simp del: ParseBinOpRHS.simps)
  qed
  from a b c d show ?thesis unfolding ta tb by simp
qed

section \<open>The binary operators of the parser\<close>

text \<open>The operators of the binary nodes of a tree.\<close>

fun binops :: "'d ExprAST \<Rightarrow> char set" where
  "binops (NumberExprAST Val) = {}"
| "binops (VariableExprAST Name) = {}"
| "binops (BinaryExprAST Op LHS RHS) = insert Op (binops LHS \<union> binops RHS)"
| "binops (CallExprAST Callee Args) = (\<Union>A\<in>set Args. binops A)"

text \<open>
  A lookup with \<^verbatim>\<open>operator[]\<close> inserts the value 0 for a key that is absent, so the table
  grows while the parser runs. What a lookup returns stays the same: a table is
  \<open>installed\<close> when every lookup in it returns what it returns in the table of \<^verbatim>\<open>main\<close>.
\<close>

definition prec_of :: "(char \<rightharpoonup> int) \<Rightarrow> char \<Rightarrow> int" where
  "prec_of m c = (case m c of None \<Rightarrow> 0 | Some p \<Rightarrow> p)"

definition installed :: "(char \<rightharpoonup> int) \<Rightarrow> bool" where
  "installed m \<longleftrightarrow> (\<forall>c. prec_of m c = prec_of main_BinopPrecedence c)"

lemma installed_main: "installed main_BinopPrecedence"
  by (simp add: installed_def)

text \<open>The lexer writes only to its own variables.\<close>

definition lex_only :: "'d state \<Rightarrow> 'd state \<Rightarrow> bool" where
  "lex_only s s' \<longleftrightarrow>
     CurTok s' = CurTok s \<and> BinopPrecedence s' = BinopPrecedence s \<and> TheModule s' = TheModule s
     \<and> NamedValues s' = NamedValues s \<and> InsertPoint s' = InsertPoint s \<and> next_addr s' = next_addr s"

lemma lex_only_refl [simp]: "lex_only s s"
  by (simp add: lex_only_def)

lemma lex_only_trans: "lex_only s s1 \<Longrightarrow> lex_only s1 s2 \<Longrightarrow> lex_only s s2"
  by (simp add: lex_only_def)

lemma lex_only_update:
  "lex_only s s' \<Longrightarrow> lex_only s (s'\<lparr>input := i\<rparr>)"
  "lex_only s s' \<Longrightarrow> lex_only s (s'\<lparr>LastChar := l\<rparr>)"
  "lex_only s s' \<Longrightarrow> lex_only s (s'\<lparr>IdentifierStr := n\<rparr>)"
  "lex_only s s' \<Longrightarrow> lex_only s (s'\<lparr>NumVal := v\<rparr>)"
  "lex_only s s' \<Longrightarrow> lex_only s (s'\<lparr>stderr := e\<rparr>)"
  by (simp_all add: lex_only_def)

lemma lex_only_getchar: "lex_only s (getchar s)"
  by (simp add: getchar_def lex_only_def split: list.splits)

lemma lex_only_getchar': "lex_only s s' \<Longrightarrow> lex_only s (getchar s')"
  using lex_only_getchar lex_only_trans by blast

lemma lex_only_skip_space: "lex_only s (skip_space s)"
proof (induction s rule: skip_space.induct)
  case (1 s)
  show ?case
  proof (cases "isspace (LastChar s)")
    case True
    then have "skip_space s = skip_space (getchar s)" by (subst skip_space.simps) simp
    then show ?thesis using 1 True lex_only_getchar lex_only_trans by metis
  next
    case False
    then have "skip_space s = s" by (subst skip_space.simps) simp
    then show ?thesis by simp
  qed
qed

lemma lex_only_read_identifier: "lex_only s (read_identifier s)"
proof (induction s rule: read_identifier.induct)
  case (1 s)
  let ?s1 = "getchar s"
  show ?case
  proof (cases "isalnum (LastChar ?s1)")
    case True
    let ?s2 = "?s1\<lparr>IdentifierStr := IdentifierStr ?s1 @ [char_of (LastChar ?s1)]\<rparr>"
    have "read_identifier s = read_identifier ?s2"
      using True by (subst read_identifier.simps) (simp add: Let_def)
    moreover have "lex_only ?s2 (read_identifier ?s2)" using 1 True by simp
    moreover have "lex_only s ?s2" by (intro lex_only_update lex_only_getchar)
    ultimately show ?thesis using lex_only_trans by metis
  next
    case False
    then have "read_identifier s = ?s1" by (subst read_identifier.simps) (simp add: Let_def)
    then show ?thesis by (simp add: lex_only_getchar)
  qed
qed

lemma lex_only_read_number: "lex_only s (snd (read_number acc s))"
proof (induction acc s rule: read_number.induct)
  case (1 NumStr s)
  let ?s1 = "getchar s"
  let ?acc = "NumStr @ [char_of (LastChar s)]"
  show ?case
  proof (cases "isdigit (LastChar ?s1) \<or> LastChar ?s1 = ord CHR ''.''")
    case True
    have "read_number NumStr s = read_number ?acc ?s1"
      using True by (subst read_number.simps) (simp add: Let_def)
    moreover have "lex_only ?s1 (snd (read_number ?acc ?s1))" using 1 True by simp
    ultimately show ?thesis using lex_only_getchar lex_only_trans by metis
  next
    case False
    then have "read_number NumStr s = (?acc, ?s1)"
      by (subst read_number.simps) (simp add: Let_def)
    then show ?thesis by (simp add: lex_only_getchar)
  qed
qed

lemma lex_only_skip_line: "lex_only s (skip_line s)"
proof (induction s rule: skip_line.induct)
  case (1 s)
  let ?s1 = "getchar s"
  show ?case
  proof (cases "LastChar ?s1 \<noteq> EOF \<and> LastChar ?s1 \<noteq> ord (CHR 0x0A) \<and> LastChar ?s1 \<noteq> ord (CHR 0x0D)")
    case True
    then have "skip_line s = skip_line ?s1" by (subst skip_line.simps) (simp add: Let_def)
    moreover have "lex_only ?s1 (skip_line ?s1)" using 1 True by simp
    ultimately show ?thesis using lex_only_getchar lex_only_trans by metis
  next
    case False
    then have "skip_line s = ?s1" by (subst skip_line.simps) (auto simp add: Let_def)
    then show ?thesis by (simp add: lex_only_getchar)
  qed
qed

lemma lex_only_skip_block: "lex_only s (snd (skip_block s))"
proof (induction s rule: skip_block.induct)
  case (1 s)
  let ?s1 = "getchar s"
  let ?s2 = "getchar ?s1"
  have l1: "lex_only s ?s1" by (rule lex_only_getchar)
  have l2: "lex_only s ?s2" by (intro lex_only_getchar' lex_only_getchar)
  consider (eof) "LastChar ?s1 = EOF"
    | (close) "LastChar ?s1 \<noteq> EOF" "LastChar ?s1 = ord CHR ''*''" "LastChar ?s2 = ord CHR ''/''"
    | (star) "LastChar ?s1 \<noteq> EOF" "LastChar ?s1 = ord CHR ''*''" "LastChar ?s2 \<noteq> ord CHR ''/''"
    | (other) "LastChar ?s1 \<noteq> EOF" "LastChar ?s1 \<noteq> ord CHR ''*''"
    by blast
  then show ?case
  proof cases
    case eof
    then have "snd (skip_block s) = ?s1\<lparr>stderr := stderr ?s1 @ [''Error: Unterminated multi-line comment'']\<rparr>"
      by (subst skip_block.simps) (simp add: Let_def)
    then show ?thesis using l1 by (simp add: lex_only_update)
  next
    case close
    then have "snd (skip_block s) = ?s2"
      by (subst skip_block.simps) (simp add: Let_def)
    then show ?thesis using l2 by simp
  next
    case star
    then have "skip_block s = skip_block ?s2"
      by (subst skip_block.simps) (simp add: Let_def)
    moreover have "lex_only ?s2 (snd (skip_block ?s2))"
      using star 1(1) by simp
    ultimately show ?thesis using l2 lex_only_trans by metis
  next
    case other
    then have "skip_block s = skip_block ?s1"
      by (subst skip_block.simps) (simp add: Let_def)
    moreover have "lex_only ?s1 (snd (skip_block ?s1))"
      using other 1(2) by simp
    ultimately show ?thesis using l1 lex_only_trans by metis
  qed
qed

lemma lex_only_getTok: "lex_only s0 (snd (getTok strtod s0))"
proof (induction strtod s0 rule: getTok.induct)
  case (1 strtod s0)
  let ?s = "skip_space s0"
  have ls: "lex_only s0 ?s" by (rule lex_only_skip_space)
  consider (ident) "isalpha (LastChar ?s)"
    | (num) "\<not> isalpha (LastChar ?s)" "isdigit (LastChar ?s) \<or> LastChar ?s = ord CHR ''.''"
    | (slash) "\<not> isalpha (LastChar ?s)" "\<not> (isdigit (LastChar ?s) \<or> LastChar ?s = ord CHR ''.'')"
              "LastChar ?s = ord CHR ''/''"
    | (other) "\<not> isalpha (LastChar ?s)" "\<not> (isdigit (LastChar ?s) \<or> LastChar ?s = ord CHR ''.'')"
              "LastChar ?s \<noteq> ord CHR ''/''"
    by blast
  then show ?case
  proof cases
    case ident
    let ?s1 = "read_identifier (?s\<lparr>IdentifierStr := [char_of (LastChar ?s)]\<rparr>)"
    have "snd (getTok strtod s0) = ?s1"
      using ident by (subst getTok.simps) (simp add: Let_def)
    moreover have "lex_only s0 (?s\<lparr>IdentifierStr := [char_of (LastChar ?s)]\<rparr>)"
      using ls by (rule lex_only_update)
    ultimately show ?thesis using lex_only_read_identifier lex_only_trans by metis
  next
    case num
    have "snd (getTok strtod s0) = (snd (read_number [] ?s))\<lparr>NumVal := strtod (fst (read_number [] ?s))\<rparr>"
      using num by (subst getTok.simps) (simp add: Let_def split_beta)
    moreover have "lex_only s0 (snd (read_number [] ?s))"
      using ls lex_only_read_number lex_only_trans by blast
    ultimately show ?thesis by (simp add: lex_only_update)
  next
    case slash
    let ?s1 = "getchar ?s"
    have l1: "lex_only s0 ?s1" using ls by (rule lex_only_getchar')
    consider (line) "LastChar ?s1 = ord CHR ''/''"
      | (block) "LastChar ?s1 \<noteq> ord CHR ''/''" "LastChar ?s1 = ord CHR ''*''"
      | (div) "LastChar ?s1 \<noteq> ord CHR ''/''" "LastChar ?s1 \<noteq> ord CHR ''*''"
      by blast
    then show ?thesis
    proof cases
      case line
      let ?s2 = "skip_line ?s1"
      have l2: "lex_only s0 ?s2" using l1 lex_only_skip_line lex_only_trans by blast
      show ?thesis
      proof (cases "LastChar ?s2 \<noteq> EOF")
        case True
        have "getTok strtod s0 = getTok strtod ?s2"
          using slash line True by (subst getTok.simps) (simp add: Let_def)
        moreover have "lex_only ?s2 (snd (getTok strtod ?s2))"
          using "1.IH"(1) [OF refl slash(1) slash(2) slash(3) refl line refl True] .
        ultimately show ?thesis using l2 lex_only_trans by metis
      next
        case False
        have "snd (getTok strtod s0) = ?s2"
          using slash line False by (subst getTok.simps) (simp add: Let_def)
        then show ?thesis using l2 by simp
      qed
    next
      case block
      obtain closed s2 where sb: "skip_block ?s1 = (closed, s2)" by (cases "skip_block ?s1")
      have l2: "lex_only s0 s2" using l1 lex_only_skip_block [of ?s1] sb lex_only_trans by fastforce
      show ?thesis
      proof (cases closed)
        case True
        have "getTok strtod s0 = getTok strtod (getchar s2)"
          using slash block sb True by (subst getTok.simps) (simp add: Let_def)
        moreover have "lex_only (getchar s2) (snd (getTok strtod (getchar s2)))"
          using "1.IH"(2) [OF refl slash(1) slash(2) slash(3) refl block(1) block(2) refl sb [symmetric] True] .
        ultimately show ?thesis using l2 lex_only_getchar' lex_only_trans by metis
      next
        case False
        have "snd (getTok strtod s0) = s2"
          using slash block sb False by (subst getTok.simps) (simp add: Let_def)
        then show ?thesis using l2 by simp
      qed
    next
      case div
      have "snd (getTok strtod s0) = ?s1"
        using slash div by (subst getTok.simps) (simp add: Let_def)
      then show ?thesis using l1 by simp
    qed
  next
    case other
    have "snd (getTok strtod s0) = ?s \<or> snd (getTok strtod s0) = getchar ?s"
      using other by (subst getTok.simps, simp add: Let_def)+
    then show ?thesis using ls lex_only_getchar' by metis
  qed
qed

lemma lex_only_fields:
  assumes "lex_only s s'"
  shows "BinopPrecedence s' = BinopPrecedence s" and "CurTok s' = CurTok s"
    and "TheModule s' = TheModule s" and "NamedValues s' = NamedValues s"
    and "InsertPoint s' = InsertPoint s" and "next_addr s' = next_addr s"
  using assms by (simp_all add: lex_only_def)

lemma BinopPrecedence_getNextToken [simp]:
  "BinopPrecedence (getNextToken strtod s) = BinopPrecedence s"
  using lex_only_fields(1) [OF lex_only_getTok [of s strtod]]
  by (simp add: getNextToken_def split_beta)

text \<open>
  The invariant of the parse functions: the table is still installed, and the tree
  returned, if there is one, has no binary node with the operator \<^verbatim>\<open>/\<close>.
\<close>

definition no_div :: "'d ExprAST option \<Rightarrow> 'd state \<Rightarrow> bool" where
  "no_div r s' \<longleftrightarrow>
     installed (BinopPrecedence s') \<and> (\<forall>e. r = Some e \<longrightarrow> CHR ''/'' \<notin> binops e)"

definition no_div_args :: "'d ExprAST list option \<Rightarrow> 'd state \<Rightarrow> bool" where
  "no_div_args r s' \<longleftrightarrow>
     installed (BinopPrecedence s') \<and> (\<forall>as. r = Some as \<longrightarrow> (\<forall>a\<in>set as. CHR ''/'' \<notin> binops a))"

lemma main_BinopPrecedence_Some:
  "main_BinopPrecedence c = Some p \<Longrightarrow> c \<in> {CHR ''<'', CHR ''+'', CHR ''-'', CHR ''*''}"
  unfolding main_BinopPrecedence_def
  apply (simp split: if_splits)
  done

lemma subscript_prec_of:
  assumes "subscript 0 m k = (v, m')"
  shows "v = prec_of m k" and "prec_of m' = prec_of m"
proof -
  show "v = prec_of m k"
    using assms by (cases "m k") (auto simp: subscript_def prec_of_def)
  show "prec_of m' = prec_of m"
  proof (cases "m k")
    case None
    with assms have "m' = m(k \<mapsto> 0)" by (simp add: subscript_def)
    with None show ?thesis by (auto simp: prec_of_def fun_eq_iff)
  next
    case (Some a)
    with assms show ?thesis by (simp add: subscript_def)
  qed
qed

lemma prec_of_main_positive:
  "0 < prec_of main_BinopPrecedence c \<Longrightarrow> main_BinopPrecedence c = Some (prec_of main_BinopPrecedence c)"
  by (cases "main_BinopPrecedence c") (simp_all add: prec_of_def)

lemma GetTokPrecedence_installed:
  assumes "installed (BinopPrecedence s)" and "GetTokPrecedence s = (p, s')"
  shows "installed (BinopPrecedence s')" and "lex_only s (s'\<lparr>BinopPrecedence := BinopPrecedence s\<rparr>)"
    and "CurTok s' = CurTok s"
    and "p = - 1 \<or> (0 < p \<and> main_BinopPrecedence (char_of (CurTok s)) = Some p)"
proof -
  let ?k = "char_of (CurTok s) :: char"
  obtain v m' where sub: "subscript 0 (BinopPrecedence s) ?k = (v, m')"
    by (cases "subscript 0 (BinopPrecedence s) ?k")
  note sp = subscript_prec_of [OF sub]
  have s': "s' = s \<or> s' = s\<lparr>BinopPrecedence := m'\<rparr>"
    using assms(2) sub by (auto simp: GetTokPrecedence_def Let_def split: if_splits)
  have "installed m'" using assms(1) sp by (simp add: installed_def)
  with s' assms(1) show "installed (BinopPrecedence s')" by auto
  from s' show "lex_only s (s'\<lparr>BinopPrecedence := BinopPrecedence s\<rparr>)" and "CurTok s' = CurTok s"
    by (auto simp: lex_only_def)
  have "p = - 1 \<or> (0 < p \<and> p = prec_of main_BinopPrecedence ?k)"
    using assms sub sp by (auto simp: GetTokPrecedence_def Let_def installed_def split: if_splits)
  then show "p = - 1 \<or> (0 < p \<and> main_BinopPrecedence (char_of (CurTok s)) = Some p)"
    using prec_of_main_positive [of ?k] by auto
qed

lemma GetTokPrecedence_operator:
  assumes "installed (BinopPrecedence s)" and "GetTokPrecedence s = (p, s')" and "0 \<le> p"
  shows "char_of (CurTok s) \<in> {CHR ''<'', CHR ''+'', CHR ''-'', CHR ''*''}"
proof -
  from GetTokPrecedence_installed(4) [OF assms(1,2)] assms(3)
  have "main_BinopPrecedence (char_of (CurTok s)) = Some p" by auto
  then show ?thesis by (rule main_BinopPrecedence_Some)
qed

lemma BinopPrecedence_LogError [simp]: "BinopPrecedence (LogError Str s) = BinopPrecedence s"
  by (simp add: LogError_def)

lemma no_div_ParseExpression:
  assumes P: "\<And>s r s'. installed (BinopPrecedence s) \<Longrightarrow> ParsePrimary n strtod s = Some (r, s')
                \<Longrightarrow> no_div r s'"
    and B: "\<And>s p LHS r s'. installed (BinopPrecedence s) \<Longrightarrow> 0 \<le> p \<Longrightarrow> CHR ''/'' \<notin> binops LHS
                \<Longrightarrow> ParseBinOpRHS n strtod p LHS s = Some (r, s') \<Longrightarrow> no_div r s'"
    and inst: "installed (BinopPrecedence s)"
    and eq: "ParseExpression (Suc n) strtod s = Some (r, s')"
  shows "no_div r s'"
proof (cases "ParsePrimary n strtod s")
  case None
  with eq show ?thesis by simp
next
  case (Some a)
  obtain x s1 where a: "a = (x, s1)" by (cases a)
  have g: "no_div x s1" using P [OF inst] Some a by simp
  show ?thesis
  proof (cases x)
    case None
    with eq Some a g show ?thesis by (simp add: no_div_def)
  next
    case (Some LHS)
    with eq \<open>ParsePrimary n strtod s = Some a\<close> a
    have "ParseBinOpRHS n strtod 0 LHS s1 = Some (r, s')" by simp
    then show ?thesis using B [of s1 0 LHS r s'] g Some by (simp add: no_div_def)
  qed
qed

lemma no_div_ParsePrimary:
  assumes I: "\<And>s r s'. installed (BinopPrecedence s) \<Longrightarrow> ParseIdentifierExpr n strtod s = Some (r, s')
                \<Longrightarrow> no_div r s'"
    and N: "\<And>s r s'. installed (BinopPrecedence s) \<Longrightarrow> ParseParenExpr n strtod s = Some (r, s')
                \<Longrightarrow> no_div r s'"
    and inst: "installed (BinopPrecedence s)"
    and eq: "ParsePrimary (Suc n) strtod s = Some (r, s')"
  shows "no_div r s'"
proof -
  consider (ident) "CurTok s = tok_identifier"
    | (num) "CurTok s \<noteq> tok_identifier" "CurTok s = tok_number"
    | (paren) "CurTok s \<noteq> tok_identifier" "CurTok s \<noteq> tok_number" "CurTok s = ord CHR ''(''"
    | (other) "CurTok s \<noteq> tok_identifier" "CurTok s \<noteq> tok_number" "CurTok s \<noteq> ord CHR ''(''"
    by blast
  then show ?thesis
  proof cases
    case ident
    with eq have "ParseIdentifierExpr n strtod s = Some (r, s')" by simp
    then show ?thesis using I [OF inst] by simp
  next
    case num
    with eq have "r = Some (NumberExprAST (NumVal s))" "s' = getNextToken strtod s"
      by (simp_all add: ParseNumberExpr_def)
    then show ?thesis using inst by (simp add: no_div_def)
  next
    case paren
    with eq have "ParseParenExpr n strtod s = Some (r, s')" by simp
    then show ?thesis using N [OF inst] by simp
  next
    case other
    with eq have "r = None" "s' = LogError ''Unknown token when expecting an expression'' s"
      by simp_all
    then show ?thesis using inst by (simp add: no_div_def)
  qed
qed

lemma no_div_ParseIdentifierExpr:
  assumes A: "\<And>s Args r s'. installed (BinopPrecedence s) \<Longrightarrow> \<forall>a\<in>set Args. CHR ''/'' \<notin> binops a
                  \<Longrightarrow> ParseArgs n strtod Args s = Some (r, s') \<Longrightarrow> no_div_args r s'"
    and inst: "installed (BinopPrecedence s)"
    and eq: "ParseIdentifierExpr (Suc n) strtod s = Some (r, s')"
  shows "no_div r s'"
proof -
  let ?s1 = "getNextToken strtod s"
  let ?s2 = "getNextToken strtod ?s1"
  have i1: "installed (BinopPrecedence ?s1)" and i2: "installed (BinopPrecedence ?s2)"
    using inst by simp_all
  consider (var) "CurTok ?s1 \<noteq> ord CHR ''(''"
    | (empty) "CurTok ?s1 = ord CHR ''(''" "CurTok ?s2 = ord CHR '')''"
    | (args) "CurTok ?s1 = ord CHR ''(''" "CurTok ?s2 \<noteq> ord CHR '')''"
    by blast
  then show ?thesis
  proof cases
    case var
    with eq have "r = Some (VariableExprAST (IdentifierStr s))" "s' = ?s1"
      by (simp_all add: Let_def)
    then show ?thesis using i1 by (simp add: no_div_def)
  next
    case empty
    with eq have "r = Some (CallExprAST (IdentifierStr s) [])" "s' = getNextToken strtod ?s2"
      by (simp_all add: Let_def)
    then show ?thesis using i2 by (simp add: no_div_def)
  next
    case args
    show ?thesis
    proof (cases "ParseArgs n strtod [] ?s2")
      case None
      with eq args show ?thesis by (simp add: Let_def)
    next
      case (Some a)
      obtain x s3 where a: "a = (x, s3)" by (cases a)
      have g: "no_div_args x s3"
        using A [of ?s2 "[]" x s3] i2 Some a by simp
      show ?thesis
      proof (cases x)
        case None
        with eq args Some a have "r = None" "s' = s3" by (simp_all add: Let_def)
        then show ?thesis using g by (simp add: no_div_def no_div_args_def)
      next
        case (Some as)
        with eq args \<open>ParseArgs n strtod [] ?s2 = Some a\<close> a
        have "r = Some (CallExprAST (IdentifierStr s) as)" "s' = getNextToken strtod s3"
          by (simp_all add: Let_def)
        then show ?thesis using g Some by (simp add: no_div_def no_div_args_def)
      qed
    qed
  qed
qed

lemma no_div_ParseArgs:
  assumes E: "\<And>s r s'. installed (BinopPrecedence s) \<Longrightarrow> ParseExpression n strtod s = Some (r, s')
                \<Longrightarrow> no_div r s'"
    and A: "\<And>s Args r s'. installed (BinopPrecedence s) \<Longrightarrow> \<forall>a\<in>set Args. CHR ''/'' \<notin> binops a
                  \<Longrightarrow> ParseArgs n strtod Args s = Some (r, s') \<Longrightarrow> no_div_args r s'"
    and inst: "installed (BinopPrecedence s)"
    and args: "\<forall>a\<in>set Args. CHR ''/'' \<notin> binops a"
    and eq: "ParseArgs (Suc n) strtod Args s = Some (r, s')"
  shows "no_div_args r s'"
proof (cases "ParseExpression n strtod s")
  case None
  with eq show ?thesis by simp
next
  case (Some a)
  obtain x s1 where a: "a = (x, s1)" by (cases a)
  have g: "no_div x s1" using E [OF inst] Some a by simp
  then have i1: "installed (BinopPrecedence s1)" by (simp add: no_div_def)
  show ?thesis
  proof (cases x)
    case None
    with eq Some a have "r = None" "s' = s1" by simp_all
    then show ?thesis using i1 by (simp add: no_div_args_def)
  next
    case (Some Arg)
    have args': "\<forall>a\<in>set (Args @ [Arg]). CHR ''/'' \<notin> binops a"
      using args g Some by (simp add: no_div_def)
    consider (close) "CurTok s1 = ord CHR '')''"
      | (bad) "CurTok s1 \<noteq> ord CHR '')''" "CurTok s1 \<noteq> ord CHR '',''"
      | (comma) "CurTok s1 \<noteq> ord CHR '')''" "CurTok s1 = ord CHR '',''"
      by blast
    then show ?thesis
    proof cases
      case close
      with eq \<open>ParseExpression n strtod s = Some a\<close> a Some
      have "r = Some (Args @ [Arg])" "s' = s1" by simp_all
      then show ?thesis using args' i1 by (simp add: no_div_args_def)
    next
      case bad
      with eq \<open>ParseExpression n strtod s = Some a\<close> a Some
      have "r = None" "s' = LogError ''Expected ',' or ')' in argument list'' s1" by simp_all
      then show ?thesis using i1 by (simp add: no_div_args_def)
    next
      case comma
      with eq \<open>ParseExpression n strtod s = Some a\<close> a Some
      have "ParseArgs n strtod (Args @ [Arg]) (getNextToken strtod s1) = Some (r, s')" by simp
      then show ?thesis using A [of "getNextToken strtod s1" "Args @ [Arg]" r s'] args' i1 by simp
    qed
  qed
qed

lemma no_div_ParseParenExpr:
  assumes E: "\<And>s r s'. installed (BinopPrecedence s) \<Longrightarrow> ParseExpression n strtod s = Some (r, s')
                \<Longrightarrow> no_div r s'"
    and inst: "installed (BinopPrecedence s)"
    and eq: "ParseParenExpr (Suc n) strtod s = Some (r, s')"
  shows "no_div r s'"
proof (cases "ParseExpression n strtod (getNextToken strtod s)")
  case None
  with eq show ?thesis by simp
next
  case (Some a)
  obtain x s1 where a: "a = (x, s1)" by (cases a)
  have g: "no_div x s1" using E [of "getNextToken strtod s" x s1] inst Some a by simp
  show ?thesis
  proof (cases x)
    case None
    with eq Some a have "r = None" "s' = s1" by simp_all
    then show ?thesis using g by (simp add: no_div_def)
  next
    case (Some V)
    show ?thesis
    proof (cases "CurTok s1 \<noteq> ord CHR '')''")
      case True
      with eq \<open>ParseExpression n strtod (getNextToken strtod s) = Some a\<close> a Some
      have "r = None" "s' = LogError (''Expected '' @ [CHR 0x27, CHR '')'', CHR 0x27]) s1" by simp_all
      then show ?thesis using g by (simp add: no_div_def)
    next
      case False
      with eq \<open>ParseExpression n strtod (getNextToken strtod s) = Some a\<close> a Some
      have "r = Some V" "s' = getNextToken strtod s1" by simp_all
      then show ?thesis using g Some by (simp add: no_div_def)
    qed
  qed
qed


lemma no_div_ParseBinOpRHS:
  assumes P: "\<And>s r s'. installed (BinopPrecedence s) \<Longrightarrow> ParsePrimary n strtod s = Some (r, s')
                \<Longrightarrow> no_div r s'"
    and B: "\<And>s p LHS r s'. installed (BinopPrecedence s) \<Longrightarrow> 0 \<le> p \<Longrightarrow> CHR ''/'' \<notin> binops LHS
                \<Longrightarrow> ParseBinOpRHS n strtod p LHS s = Some (r, s') \<Longrightarrow> no_div r s'"
    and inst: "installed (BinopPrecedence s)" and p: "0 \<le> p" and lhs: "CHR ''/'' \<notin> binops LHS"
    and eq: "ParseBinOpRHS (Suc n) strtod p LHS s = Some (r, s')"
  shows "no_div r s'"
proof -
  obtain TokPrec s1 where t: "GetTokPrecedence s = (TokPrec, s1)" by (cases "GetTokPrecedence s")
  note t1 = GetTokPrecedence_installed [OF inst t]
  show ?thesis
  proof (cases "TokPrec < p")
    case True
    with eq t have "r = Some LHS" "s' = s1" by simp_all
    with t1(1) lhs show ?thesis by (simp add: no_div_def)
  next
    case False
    then have "0 \<le> TokPrec" using p by simp
    from GetTokPrecedence_operator [OF inst t this] t1(3)
    have op: "char_of (CurTok s1) \<noteq> CHR ''/''" by auto
    let ?s2 = "getNextToken strtod s1"
    have i2: "installed (BinopPrecedence ?s2)" using t1(1) by simp
    show ?thesis
    proof (cases "ParsePrimary n strtod ?s2")
      case None
      with eq t False show ?thesis by (simp add: Let_def)
    next
      case (Some a)
      obtain x s3 where a: "a = (x, s3)" by (cases a)
      have g: "no_div x s3" using P [OF i2] Some a by simp
      show ?thesis
      proof (cases x)
        case None
        with eq t False Some a have "r = None" "s' = s3" by (simp_all add: Let_def)
        then show ?thesis using g by (simp add: no_div_def)
      next
        case (Some RHS)
        have rhs: "CHR ''/'' \<notin> binops RHS" and i3: "installed (BinopPrecedence s3)"
          using g Some by (simp_all add: no_div_def)
        obtain NextPrec s4 where nx: "GetTokPrecedence s3 = (NextPrec, s4)"
          by (cases "GetTokPrecedence s3")
        note t4 = GetTokPrecedence_installed [OF i3 nx]
        show ?thesis
        proof (cases "TokPrec < NextPrec")
          case no: False
          with eq t False \<open>ParsePrimary n strtod ?s2 = Some a\<close> a Some nx
          have "ParseBinOpRHS n strtod p (BinaryExprAST (char_of (CurTok s1)) LHS RHS) s4 = Some (r, s')"
            by (simp add: Let_def)
          then show ?thesis
            using B [of s4 p "BinaryExprAST (char_of (CurTok s1)) LHS RHS" r s'] t4(1) p lhs rhs op
            by simp
        next
          case yes: True
          show ?thesis
          proof (cases "ParseBinOpRHS n strtod (TokPrec + 1) RHS s4")
            case None
            with eq t False \<open>ParsePrimary n strtod ?s2 = Some a\<close> a Some nx yes
            show ?thesis by (simp add: Let_def)
          next
            case (Some b)
            obtain y s5 where b: "b = (y, s5)" by (cases b)
            have g5: "no_div y s5"
              using B [of s4 "TokPrec + 1" RHS y s5] t4(1) rhs \<open>0 \<le> TokPrec\<close> Some b by simp
            show ?thesis
            proof (cases y)
              case None
              with eq t False \<open>ParsePrimary n strtod ?s2 = Some a\<close> a \<open>x = Some RHS\<close> nx yes Some b
              have "r = None" "s' = s5" by (simp_all add: Let_def)
              then show ?thesis using g5 by (simp add: no_div_def)
            next
              case (Some RHS')
              with eq t False \<open>ParsePrimary n strtod ?s2 = Some a\<close> a \<open>x = Some RHS\<close> nx yes
                \<open>ParseBinOpRHS n strtod (TokPrec + 1) RHS s4 = Some b\<close> b
              have "ParseBinOpRHS n strtod p (BinaryExprAST (char_of (CurTok s1)) LHS RHS') s5 = Some (r, s')"
                by (simp add: Let_def)
              moreover have "CHR ''/'' \<notin> binops RHS'" "installed (BinopPrecedence s5)"
                using g5 Some by (simp_all add: no_div_def)
              ultimately show ?thesis
                using B [of s5 p "BinaryExprAST (char_of (CurTok s1)) LHS RHS'" r s'] p lhs op by simp
            qed
          qed
        qed
      qed
    qed
  qed
qed

text \<open>The invariant holds for the six parse functions, by induction on the bound.\<close>

lemma parser_no_div:
  "(\<forall>s r s'. installed (BinopPrecedence s) \<longrightarrow> ParseExpression n strtod s = Some (r, s')
       \<longrightarrow> no_div r s')
   \<and> (\<forall>s r s'. installed (BinopPrecedence s) \<longrightarrow> ParsePrimary n strtod s = Some (r, s')
       \<longrightarrow> no_div r s')
   \<and> (\<forall>s r s'. installed (BinopPrecedence s) \<longrightarrow> ParseIdentifierExpr n strtod s = Some (r, s')
       \<longrightarrow> no_div r s')
   \<and> (\<forall>s Args r s'. installed (BinopPrecedence s) \<longrightarrow> (\<forall>a\<in>set Args. CHR ''/'' \<notin> binops a)
       \<longrightarrow> ParseArgs n strtod Args s = Some (r, s') \<longrightarrow> no_div_args r s')
   \<and> (\<forall>s r s'. installed (BinopPrecedence s) \<longrightarrow> ParseParenExpr n strtod s = Some (r, s')
       \<longrightarrow> no_div r s')
   \<and> (\<forall>s p LHS r s'. installed (BinopPrecedence s) \<longrightarrow> 0 \<le> p \<longrightarrow> CHR ''/'' \<notin> binops LHS
       \<longrightarrow> ParseBinOpRHS n strtod p LHS s = Some (r, s')
       \<longrightarrow> no_div r s')"
proof (induction n)
  case 0
  show ?case by simp
next
  case (Suc n)
  have E: "no_div r s'"
    if "installed (BinopPrecedence s)" "ParseExpression n strtod s = Some (r, s')" for s r s'
    using Suc.IH [THEN conjunct1] that by blast
  have P: "no_div r s'"
    if "installed (BinopPrecedence s)" "ParsePrimary n strtod s = Some (r, s')" for s r s'
    using Suc.IH [THEN conjunct2, THEN conjunct1] that by blast
  have I: "no_div r s'"
    if "installed (BinopPrecedence s)" "ParseIdentifierExpr n strtod s = Some (r, s')" for s r s'
    using Suc.IH [THEN conjunct2, THEN conjunct2, THEN conjunct1] that by blast
  have A: "no_div_args r s'"
    if "installed (BinopPrecedence s)" "\<forall>a\<in>set Args. CHR ''/'' \<notin> binops a"
      "ParseArgs n strtod Args s = Some (r, s')" for s Args r s'
    using Suc.IH [THEN conjunct2, THEN conjunct2, THEN conjunct2, THEN conjunct1] that by blast
  have N: "no_div r s'"
    if "installed (BinopPrecedence s)" "ParseParenExpr n strtod s = Some (r, s')" for s r s'
    using Suc.IH [THEN conjunct2, THEN conjunct2, THEN conjunct2, THEN conjunct2, THEN conjunct1] that
    by blast
  have B: "no_div r s'"
    if "installed (BinopPrecedence s)" "0 \<le> p" "CHR ''/'' \<notin> binops LHS"
      "ParseBinOpRHS n strtod p LHS s = Some (r, s')" for s p LHS r s'
    using Suc.IH [THEN conjunct2, THEN conjunct2, THEN conjunct2, THEN conjunct2, THEN conjunct2] that
    by blast
  show ?case
  proof (intro conjI allI impI)
    fix s r s'
    assume a: "installed (BinopPrecedence s)" "ParseExpression (Suc n) strtod s = Some (r, s')"
    show "no_div r s'"
      by (rule no_div_ParseExpression [where n = n and strtod = strtod and s = s])
        (fact a | blast intro: P B)+
  next
    fix s r s'
    assume a: "installed (BinopPrecedence s)" "ParsePrimary (Suc n) strtod s = Some (r, s')"
    show "no_div r s'"
      by (rule no_div_ParsePrimary [where n = n and strtod = strtod and s = s])
        (fact a | blast intro: I N)+
  next
    fix s r s'
    assume a: "installed (BinopPrecedence s)" "ParseIdentifierExpr (Suc n) strtod s = Some (r, s')"
    show "no_div r s'"
      by (rule no_div_ParseIdentifierExpr [where n = n and strtod = strtod and s = s])
        (fact a | blast intro: A)+
  next
    fix s Args r s'
    assume a: "installed (BinopPrecedence s)" "\<forall>a\<in>set Args. CHR ''/'' \<notin> binops a"
      "ParseArgs (Suc n) strtod Args s = Some (r, s')"
    show "no_div_args r s'"
      by (rule no_div_ParseArgs [where n = n and strtod = strtod and s = s and Args = Args])
        (fact a | blast intro: E A)+
  next
    fix s r s'
    assume a: "installed (BinopPrecedence s)" "ParseParenExpr (Suc n) strtod s = Some (r, s')"
    show "no_div r s'"
      by (rule no_div_ParseParenExpr [where n = n and strtod = strtod and s = s])
        (fact a | blast intro: E)+
  next
    fix s p LHS r s'
    assume a: "installed (BinopPrecedence s)" "0 \<le> p" "CHR ''/'' \<notin> binops LHS"
      "ParseBinOpRHS (Suc n) strtod p LHS s = Some (r, s')"
    show "no_div r s'"
      by (rule no_div_ParseBinOpRHS [where n = n and strtod = strtod and s = s and p = p and LHS = LHS])
        (fact a | blast intro: P B)+
  qed
qed

lemma GetTokPrecedence_slash:
  assumes "installed (BinopPrecedence s)" and "CurTok s = ord CHR ''/''"
  shows "GetTokPrecedence s
           = (- 1, s\<lparr>BinopPrecedence := snd (subscript 0 (BinopPrecedence s) CHR ''/'')\<rparr>)"
proof -
  obtain v m' where sub: "subscript 0 (BinopPrecedence s) CHR ''/'' = (v, m')"
    by (cases "subscript 0 (BinopPrecedence s) CHR ''/''")
  have "v = prec_of (BinopPrecedence s) CHR ''/''" by (rule subscript_prec_of(1) [OF sub])
  also have "\<dots> = 0" using assms(1) by (simp add: installed_def prec_of_def main_BinopPrecedence_def)
  finally have v: "v = 0" .
  show ?thesis
    using assms(2) sub v by (simp add: GetTokPrecedence_def isascii_def char_of_def)
qed

text \<open>
  C6. Let the table of precedences be the one that \<^verbatim>\<open>main\<close> installs, up to the entries
  of value 0 that a lookup inserts. When the current token is \<^verbatim>\<open>/\<close>, \<^verbatim>\<open>GetTokPrecedence\<close>
  returns -1, and \<^verbatim>\<open>ParseBinOpRHS\<close>, called with a minimal precedence that is not negative
  as all its callers do, returns its left operand and consumes nothing: the state changes
  only by the entry for \<^verbatim>\<open>/\<close> that the lookup inserts. No tree that \<^verbatim>\<open>ParseExpression\<close> or
  \<^verbatim>\<open>ParseBinOpRHS\<close> returns has a binary node with the operator \<^verbatim>\<open>/\<close> that was not already
  in the left operand given, and the table is still the installed one afterwards.
\<close>

theorem ParseBinOpRHS_never_slash:
  assumes "installed (BinopPrecedence s)"
  shows "(CurTok s = ord CHR ''/'' \<longrightarrow>
            fst (GetTokPrecedence s) = - 1
            \<and> (0 \<le> ExprPrec \<longrightarrow>
                 ParseBinOpRHS (Suc n) strtod ExprPrec LHS s
                   = Some (Some LHS, s\<lparr>BinopPrecedence := snd (subscript 0 (BinopPrecedence s) CHR ''/'')\<rparr>)))
         \<and> (\<forall>e s'. ParseExpression n strtod s = Some (Some e, s')
               \<longrightarrow> CHR ''/'' \<notin> binops e \<and> installed (BinopPrecedence s'))
         \<and> (\<forall>e s'. 0 \<le> ExprPrec \<longrightarrow> CHR ''/'' \<notin> binops LHS
               \<longrightarrow> ParseBinOpRHS n strtod ExprPrec LHS s = Some (Some e, s')
               \<longrightarrow> CHR ''/'' \<notin> binops e \<and> installed (BinopPrecedence s'))"
proof (intro conjI impI allI)
  assume c: "CurTok s = ord CHR ''/''"
  show "fst (GetTokPrecedence s) = - 1"
    by (simp add: GetTokPrecedence_slash [OF assms c])
  assume "0 \<le> ExprPrec"
  then show "ParseBinOpRHS (Suc n) strtod ExprPrec LHS s
       = Some (Some LHS, s\<lparr>BinopPrecedence := snd (subscript 0 (BinopPrecedence s) CHR ''/'')\<rparr>)"
    by (simp add: GetTokPrecedence_slash [OF assms c])
next
  fix e s'
  assume "ParseExpression n strtod s = Some (Some e, s')"
  with parser_no_div [of n strtod, THEN conjunct1] assms have "no_div (Some e) s'" by blast
  then show "CHR ''/'' \<notin> binops e" and "installed (BinopPrecedence s')"
    by (simp_all add: no_div_def)
next
  fix e s'
  assume "0 \<le> ExprPrec" "CHR ''/'' \<notin> binops LHS"
    "ParseBinOpRHS n strtod ExprPrec LHS s = Some (Some e, s')"
  with parser_no_div [of n strtod, THEN conjunct2, THEN conjunct2, THEN conjunct2, THEN conjunct2,
      THEN conjunct2] assms
  have "no_div (Some e) s'" by blast
  then show "CHR ''/'' \<notin> binops e" and "installed (BinopPrecedence s')"
    by (simp_all add: no_div_def)
qed

text \<open>The state of the parser on the input \<^verbatim>\<open>1/2\<close> with \<^verbatim>\<open>/\<close> as the current token.\<close>

definition one_then_slash :: "string state" where
  "one_then_slash = getNextToken (\<lambda>run. run) (primed (\<lambda>run. run) ''1/2'')"

lemma one_then_slash_eq:
  "one_then_slash = (init_state (\<lambda>run. run) [])\<lparr>LastChar := ord CHR ''2'', NumVal := ''1'',
      CurTok := ord CHR ''/''\<rparr>"
  by (simp add: one_then_slash_def primed_def parse_eval)

theorem ParseBinOpRHS_never_slash_witness:
  "installed (BinopPrecedence one_then_slash) \<and> CurTok one_then_slash = ord CHR ''/''
   \<and> fst (GetTokPrecedence one_then_slash) = - 1
   \<and> ParseBinOpRHS 1 (\<lambda>run. run) 0 (NumberExprAST ''1'') one_then_slash
       = Some (Some (NumberExprAST ''1''),
               one_then_slash\<lparr>BinopPrecedence := main_BinopPrecedence(CHR ''/'' \<mapsto> 0)\<rparr>)
   \<and> ParseExpression 3 (\<lambda>run. run) (primed (\<lambda>run. run) ''1/2'')
       = Some (Some (NumberExprAST ''1''),
               one_then_slash\<lparr>BinopPrecedence := main_BinopPrecedence(CHR ''/'' \<mapsto> 0)\<rparr>)
   \<and> CHR ''/'' \<notin> binops (NumberExprAST ''1'' :: string ExprAST)"
proof -
  have i: "installed (BinopPrecedence one_then_slash)"
    by (simp add: one_then_slash_eq init_state_def installed_main)
  have c: "CurTok one_then_slash = ord CHR ''/''"
    by (simp add: one_then_slash_eq)
  have m: "snd (subscript 0 (BinopPrecedence one_then_slash) CHR ''/'')
             = main_BinopPrecedence(CHR ''/'' \<mapsto> 0)"
    by (simp add: one_then_slash_eq init_state_def subscript_def main_BinopPrecedence_def)
  have p: "ParseExpression 3 (\<lambda>run. run) (primed (\<lambda>run. run) ''1/2'')
       = Some (Some (NumberExprAST ''1''),
               one_then_slash\<lparr>BinopPrecedence := main_BinopPrecedence(CHR ''/'' \<mapsto> 0)\<rparr>)"
    by (simp add: one_then_slash_eq primed_def parse_eval)
  show ?thesis
    using ParseBinOpRHS_never_slash [of one_then_slash 0 0 "\<lambda>run. run" "NumberExprAST ''1''"] i c m p
    by simp
qed

section \<open>Parenthesised expressions\<close>

text \<open>
  Whatever \<^verbatim>\<open>ParseParenExpr\<close> returns is a tree that \<^verbatim>\<open>ParseExpression\<close> returned for the
  tokens after the opening parenthesis.
\<close>

lemma ParseParenExpr_Some:
  assumes "ParseParenExpr (Suc n) strtod s = Some (Some V, s')"
  shows "\<exists>s1. ParseExpression n strtod (getNextToken strtod s) = Some (Some V, s1)
              \<and> CurTok s1 = ord CHR '')'' \<and> s' = getNextToken strtod s1"
  using assms by (auto split: option.splits if_splits)

text \<open>The input \<^verbatim>\<open>(1+2)\<close> gives the tree of \<^verbatim>\<open>1+2\<close>.\<close>

lemma ParseExpression_paren_text:
  "map_option fst (ParseExpression 8 strtod (primed strtod ''(1+2)''))
     = map_option fst (ParseExpression 5 strtod (primed strtod ''1+2''))"
  by (simp add: primed_def parse_eval)

text \<open>
  C10. When the current token is \<^verbatim>\<open>(\<close>, \<^verbatim>\<open>ParseExpression\<close> returns the tree \<open>V\<close> for the tokens
  after it and stops at a \<^verbatim>\<open>)\<close>, then \<^verbatim>\<open>ParseParenExpr\<close> and \<^verbatim>\<open>ParsePrimary\<close> return this same
  tree \<open>V\<close>, with the \<^verbatim>\<open>)\<close> consumed; so does \<^verbatim>\<open>ParseExpression\<close> when the token after the
  \<^verbatim>\<open>)\<close> is not a binary operator. Lowering is a function of the tree, so it cannot tell the
  two apart.
\<close>

theorem ParseParenExpr_same_node:
  assumes "CurTok s = ord CHR ''(''"
    and "ParseExpression n strtod (getNextToken strtod s) = Some (Some V, s1)"
    and "CurTok s1 = ord CHR '')''"
  shows "ParseParenExpr (Suc n) strtod s = Some (Some V, getNextToken strtod s1)
         \<and> ParsePrimary (Suc (Suc n)) strtod s = Some (Some V, getNextToken strtod s1)
         \<and> (fst (GetTokPrecedence (getNextToken strtod s1)) < 0 \<longrightarrow>
              ParseExpression (Suc (Suc (Suc n))) strtod s
                = Some (Some V, snd (GetTokPrecedence (getNextToken strtod s1))))"
proof -
  have a: "ParseParenExpr (Suc n) strtod s = Some (Some V, getNextToken strtod s1)"
    using assms(2,3) by simp
  have b: "ParsePrimary (Suc (Suc n)) strtod s = ParseParenExpr (Suc n) strtod s"
    using assms(1) by simp
  have c: "ParseExpression (Suc (Suc (Suc n))) strtod s
             = Some (Some V, snd (GetTokPrecedence (getNextToken strtod s1)))"
    if "fst (GetTokPrecedence (getNextToken strtod s1)) < 0"
  proof -
    have "ParseExpression (Suc (Suc (Suc n))) strtod s
            = ParseBinOpRHS (Suc (Suc n)) strtod 0 V (getNextToken strtod s1)"
      by (subst ParseExpression.simps) (simp only: b a option.case prod.case)
    also have "\<dots> = Some (Some V, snd (GetTokPrecedence (getNextToken strtod s1)))"
      using that by (simp add: case_prod_beta)
    finally show ?thesis .
  qed
  from a b c show ?thesis by simp
qed

theorem ParseParenExpr_same_node_witness:
  "CurTok (primed (\<lambda>run. run) ''(1+2)*3'') = ord CHR ''(''
   \<and> map_option fst (ParseExpression 5 (\<lambda>run. run) (getNextToken (\<lambda>run. run) (primed (\<lambda>run. run) ''(1+2)*3'')))
       = Some (Some (BinaryExprAST CHR ''+'' (NumberExprAST ''1'') (NumberExprAST ''2'')))
   \<and> map_option fst (ParsePrimary 7 (\<lambda>run. run) (primed (\<lambda>run. run) ''(1+2)*3''))
       = Some (Some (BinaryExprAST CHR ''+'' (NumberExprAST ''1'') (NumberExprAST ''2'')))
   \<and> map_option fst (ParseExpression 5 (\<lambda>run. run) (primed (\<lambda>run. run) ''1+2''))
       = Some (Some (BinaryExprAST CHR ''+'' (NumberExprAST ''1'') (NumberExprAST ''2'')))"
proof -
  let ?s = "primed (\<lambda>run. run) ''(1+2)*3''"
  obtain s1 where s1: "ParseExpression 5 (\<lambda>run. run) (getNextToken (\<lambda>run. run) ?s)
       = Some (Some (BinaryExprAST CHR ''+'' (NumberExprAST ''1'') (NumberExprAST ''2'')), s1)"
     and c1: "CurTok s1 = ord CHR '')''"
    by (simp add: primed_def parse_eval)
  have c: "CurTok ?s = ord CHR ''(''"
    by (simp add: primed_def parse_eval)
  have e: "map_option fst (ParseExpression 5 (\<lambda>run. run) (primed (\<lambda>run. run) ''1+2''))
       = Some (Some (BinaryExprAST CHR ''+'' (NumberExprAST ''1'') (NumberExprAST ''2'')))"
    by (simp add: primed_def parse_eval)
  show ?thesis
    using ParseParenExpr_same_node [OF c s1 c1] c s1 e by simp
qed

section \<open>Lowering of expressions\<close>

text \<open>The equations that the simplifier unfolds to run the code generator.\<close>

lemmas cg_eval =
  FunctionAST_codegen.simps setName_def getFunction_def append_at_def Insert_def Create_def LogError_def subscript_def
  eraseFromParent_def BasicBlock_Create_def init_state_def Let_def

text \<open>
  C9. When the name is not a key of \<^verbatim>\<open>NamedValues\<close>, \<^verbatim>\<open>VariableExprAST::codegen\<close> reports the
  unknown variable and returns the null pointer, and the lookup by \<^verbatim>\<open>operator[]\<close> has added
  the name to the map, bound to the null pointer: the set of keys has grown by the name.
\<close>

theorem VariableExprAST_codegen_unbound:
  assumes "NamedValues s Name = None"
  shows "codegen L (VariableExprAST Name) s =
           (None, s\<lparr>NamedValues := (NamedValues s)(Name \<mapsto> None),
                     stderr := stderr s @ [''Error: Unknown Variable name'']\<rparr>)
         \<and> dom (NamedValues (snd (codegen L (VariableExprAST Name) s))) = insert Name (dom (NamedValues s))
         \<and> Name \<notin> dom (NamedValues s)"
  using assms by (auto simp: subscript_def LogError_def)

theorem VariableExprAST_codegen_unbound_witness:
  "NamedValues (init_state (\<lambda>x. x) []) ''x'' = None
   \<and> fst (codegen \<lparr>Folder = \<lambda>I. None, makeUniqueName = \<lambda>g taken n. n\<rparr> (VariableExprAST ''x'') (init_state (\<lambda>x. x) [])) = None
   \<and> dom (NamedValues (snd (codegen \<lparr>Folder = \<lambda>I. None, makeUniqueName = \<lambda>g taken n. n\<rparr> (VariableExprAST ''x'') (init_state (\<lambda>x. x) [])))) = {''x''}"
  using VariableExprAST_codegen_unbound [of "init_state (\<lambda>x. x) []" "''x''" "\<lparr>Folder = \<lambda>I. None, makeUniqueName = \<lambda>g taken n. n\<rparr>"]
  by (simp add: init_state_def)

text \<open>
  The loop over the arguments of a call goes from left to right and stops at the first
  argument that fails: the arguments after it are not lowered.
\<close>

lemma codegen_args_append:
  "codegen_args L (xs @ ys) acc s =
     (case codegen_args L xs acc s of
        (None, s1) \<Rightarrow> (None, s1)
      | (Some vs, s1) \<Rightarrow> codegen_args L ys vs s1)"
  by (induction xs arbitrary: acc s) (auto split: prod.splits option.splits)

lemma codegen_args_abort:
  "codegen_args L xs acc s = (Some vs, s1) \<Longrightarrow> codegen L A s1 = (None, s2)
   \<Longrightarrow> codegen_args L (xs @ A # ys) acc s = (None, s2)"
  by (simp add: codegen_args_append)

lemma codegen_args_next:
  "codegen_args L xs acc s = (Some vs, s1) \<Longrightarrow> codegen L A s1 = (Some v, s2)
   \<Longrightarrow> codegen_args L (xs @ [A]) acc s = (Some (vs @ [v]), s2)"
  by (simp add: codegen_args_append)


lemma codegen_args_length:
  "codegen_args L xs acc s = (Some vs, s1) \<Longrightarrow> length vs = length acc + length xs"
  by (induction xs arbitrary: acc s) (auto split: prod.splits option.splits)

text \<open>An instance of the parameters, for the concrete examples: nothing is folded.\<close>

definition plain_LLVM :: "'d LLVM" where
  "plain_LLVM = \<lparr>Folder = (\<lambda>I. None), makeUniqueName = (\<lambda>global taken n. n @ ''1'')\<rparr>"

text \<open>
  C4. \<^verbatim>\<open>CallExprAST::codegen\<close>: a callee that the module does not know gives the unknown
  function error; a callee whose number of parameters is not the number of arguments gives
  the error on the number of arguments; in both cases nothing else changes. Otherwise the
  arguments are lowered from left to right: when an argument fails after the arguments
  \<open>xs\<close> before it succeeded, the call returns the null pointer in the state that argument
  left; when all succeed, the call instruction on their values is inserted and returned.
  After \<^verbatim>\<open>import f(a b)\<close> in a new module, the top-level expression \<^verbatim>\<open>f(x)\<close> fails with the
  error on the number of arguments and leaves the module as it was, and \<^verbatim>\<open>f(x, y)\<close> gives a
  function whose block is the call and the return of its value.
\<close>

theorem CallExprAST_codegen_checks:
  "(getFunction (TheModule s) Callee = None \<longrightarrow>
      codegen L (CallExprAST Callee Args) s
        = (None, s\<lparr>stderr := stderr s @ [''Error: Unkown Function referenced'']\<rparr>))
   \<and> (\<forall>F f. getFunction (TheModule s) Callee = Some (F, f) \<longrightarrow>
         (length (fn_args f) \<noteq> length Args \<longrightarrow>
            codegen L (CallExprAST Callee Args) s
              = (None, s\<lparr>stderr := stderr s @
                   [''Error: Incorrect number of arguments passed into function call'']\<rparr>))
       \<and> (length (fn_args f) = length Args \<longrightarrow>
            (\<forall>xs A ys vs s1 s2.
                Args = xs @ A # ys \<and> codegen_args L xs [] s = (Some vs, s1)
                \<and> codegen L A s1 = (None, s2)
                \<longrightarrow> codegen L (CallExprAST Callee Args) s = (None, s2))
          \<and> (\<forall>ArgsV s1.
                codegen_args L Args [] s = (Some ArgsV, s1)
                \<longrightarrow> length ArgsV = length Args
                    \<and> codegen L (CallExprAST Callee Args) s
                        = (Some (Call F ArgsV), Insert (Call F ArgsV) s1))))
   \<and> (let s1 = snd (PrototypeAST_codegen L (PrototypeAST ''f'' [''a'', ''b'']) (init_state strtod []));
           one = FunctionAST_codegen L
                   (FunctionAST (PrototypeAST [] []) (CallExprAST ''f'' [NumberExprAST x])) s1;
           two = FunctionAST_codegen L
                   (FunctionAST (PrototypeAST [] []) (CallExprAST ''f'' [NumberExprAST x, NumberExprAST y])) s1
       in fst one = None
          \<and> stderr (snd one) = [''Error: Incorrect number of arguments passed into function call'']
          \<and> TheModule (snd one) = TheModule s1
          \<and> fst two = Some 1
          \<and> stderr (snd two) = []
          \<and> TheModule (snd two) = TheModule s1 @
               [(1, \<lparr>fn_name = [], fn_args = [],
                      fn_blocks = [[Call 0 [ConstantFP x, ConstantFP y],
                                    Ret (Call 0 [ConstantFP x, ConstantFP y])]]\<rparr>)])"
proof (intro conjI allI impI)
  assume "getFunction (TheModule s) Callee = None"
  then show "codegen L (CallExprAST Callee Args) s
        = (None, s\<lparr>stderr := stderr s @ [''Error: Unkown Function referenced'']\<rparr>)"
    by (simp add: LogError_def)
next
  fix F f
  assume "getFunction (TheModule s) Callee = Some (F, f)" "length (fn_args f) \<noteq> length Args"
  then show "codegen L (CallExprAST Callee Args) s
              = (None, s\<lparr>stderr := stderr s @
                   [''Error: Incorrect number of arguments passed into function call'']\<rparr>)"
    by (simp add: LogError_def)
next
  fix F f xs A ys vs s1 s2
  assume f: "getFunction (TheModule s) Callee = Some (F, f)" "length (fn_args f) = length Args"
    and "Args = xs @ A # ys \<and> codegen_args L xs [] s = (Some vs, s1) \<and> codegen L A s1 = (None, s2)"
  then have "codegen_args L Args [] s = (None, s2)"
    using codegen_args_abort [of L xs "[]" s vs s1 A s2 ys] by simp
  with f show "codegen L (CallExprAST Callee Args) s = (None, s2)"
    by simp
next
  fix F f ArgsV s1
  assume "getFunction (TheModule s) Callee = Some (F, f)" "length (fn_args f) = length Args"
    and a: "codegen_args L Args [] s = (Some ArgsV, s1)"
  then show "codegen L (CallExprAST Callee Args) s
                        = (Some (Call F ArgsV), Insert (Call F ArgsV) s1)"
    by simp
  show "length ArgsV = length Args"
    using codegen_args_length [OF a] by simp
next
  show "let s1 = snd (PrototypeAST_codegen L (PrototypeAST ''f'' [''a'', ''b'']) (init_state strtod []));
           one = FunctionAST_codegen L
                   (FunctionAST (PrototypeAST [] []) (CallExprAST ''f'' [NumberExprAST x])) s1;
           two = FunctionAST_codegen L
                   (FunctionAST (PrototypeAST [] []) (CallExprAST ''f'' [NumberExprAST x, NumberExprAST y])) s1
       in fst one = None
          \<and> stderr (snd one) = [''Error: Incorrect number of arguments passed into function call'']
          \<and> TheModule (snd one) = TheModule s1
          \<and> fst two = Some 1
          \<and> stderr (snd two) = []
          \<and> TheModule (snd two) = TheModule s1 @
               [(1, \<lparr>fn_name = [], fn_args = [],
                      fn_blocks = [[Call 0 [ConstantFP x, ConstantFP y],
                                    Ret (Call 0 [ConstantFP x, ConstantFP y])]]\<rparr>)]"
    by (simp add: cg_eval)
qed

text \<open>The state after \<^verbatim>\<open>import f(a b)\<close> in a new module.\<close>

definition f_declared :: "string state" where
  "f_declared = snd (PrototypeAST_codegen plain_LLVM (PrototypeAST ''f'' [''a'', ''b''])
                       (init_state (\<lambda>run. run) []))"

lemma f_declared_eq:
  "f_declared = (init_state (\<lambda>run. run) [])
      \<lparr>TheModule := [(0, \<lparr>fn_name = ''f'', fn_args = [''a'', ''b''], fn_blocks = []\<rparr>)],
        next_addr := 1\<rparr>"
  by (simp add: f_declared_def cg_eval)

theorem CallExprAST_codegen_checks_witness:
  "codegen plain_LLVM (CallExprAST ''g'' [NumberExprAST ''1.0'']) f_declared
     = (None, f_declared\<lparr>stderr := [''Error: Unkown Function referenced'']\<rparr>)
   \<and> codegen plain_LLVM (CallExprAST ''f'' [NumberExprAST ''1.0'']) f_declared
     = (None, f_declared\<lparr>stderr := [''Error: Incorrect number of arguments passed into function call'']\<rparr>)
   \<and> codegen plain_LLVM (CallExprAST ''f'' [NumberExprAST ''1.0'', NumberExprAST ''2.0'']) f_declared
     = (Some (Call 0 [ConstantFP ''1.0'', ConstantFP ''2.0'']), f_declared)
   \<and> codegen plain_LLVM (CallExprAST ''f'' [NumberExprAST ''1.0'', VariableExprAST ''z'']) f_declared
     = (None, f_declared\<lparr>NamedValues := [''z'' \<mapsto> None], stderr := [''Error: Unknown Variable name'']\<rparr>)"
proof -
  let ?f = "\<lparr>fn_name = ''f'', fn_args = [''a'', ''b''], fn_blocks = [] :: string Value list list\<rparr>"
  have g0: "getFunction (TheModule f_declared) ''g'' = None"
    and g1: "getFunction (TheModule f_declared) ''f'' = Some (0, ?f)"
    and st: "stderr f_declared = []" and ip: "InsertPoint f_declared = None"
    and nv: "NamedValues f_declared = Map.empty"
    by (simp_all add: f_declared_eq cg_eval)
  have a: "codegen plain_LLVM (CallExprAST ''g'' [NumberExprAST ''1.0'']) f_declared
     = (None, f_declared\<lparr>stderr := [''Error: Unkown Function referenced'']\<rparr>)"
    using CallExprAST_codegen_checks [of f_declared "''g''" plain_LLVM "[NumberExprAST ''1.0'']"] g0 st
    by simp
  have b: "codegen plain_LLVM (CallExprAST ''f'' [NumberExprAST ''1.0'']) f_declared
     = (None, f_declared\<lparr>stderr := [''Error: Incorrect number of arguments passed into function call'']\<rparr>)"
    using CallExprAST_codegen_checks [of f_declared "''f''" plain_LLVM "[NumberExprAST ''1.0'']"] g1 st
    by simp
  have "codegen_args plain_LLVM [NumberExprAST ''1.0'', NumberExprAST ''2.0''] [] f_declared
          = (Some [ConstantFP ''1.0'', ConstantFP ''2.0''], f_declared)"
    by simp
  then have c: "codegen plain_LLVM (CallExprAST ''f'' [NumberExprAST ''1.0'', NumberExprAST ''2.0'']) f_declared
     = (Some (Call 0 [ConstantFP ''1.0'', ConstantFP ''2.0'']), f_declared)"
    using CallExprAST_codegen_checks
            [of f_declared "''f''" plain_LLVM "[NumberExprAST ''1.0'', NumberExprAST ''2.0'']"] g1 ip
    by (simp add: Insert_def)
  let ?s2 = "f_declared\<lparr>NamedValues := [''z'' \<mapsto> None], stderr := [''Error: Unknown Variable name'']\<rparr>"
  have "codegen_args plain_LLVM [NumberExprAST ''1.0''] [] f_declared = (Some [ConstantFP ''1.0''], f_declared)"
    by simp
  moreover have "codegen plain_LLVM (VariableExprAST ''z'') f_declared = (None, ?s2)"
    using nv st by (simp add: subscript_def LogError_def)
  moreover have "[NumberExprAST ''1.0'', VariableExprAST ''z''] = [NumberExprAST ''1.0''] @ VariableExprAST ''z'' # []"
    by simp
  ultimately have d: "codegen plain_LLVM (CallExprAST ''f'' [NumberExprAST ''1.0'', VariableExprAST ''z'']) f_declared
     = (None, ?s2)"
    using CallExprAST_codegen_checks
            [of f_declared "''f''" plain_LLVM "[NumberExprAST ''1.0'', VariableExprAST ''z'']"] g1
    by (metis (no_types, lifting) Function.simps(2) length_Cons list.size(3))
  from a b c d show ?thesis by blast
qed


section \<open>What lowering an expression leaves unchanged\<close>

text \<open>
  \<open>shape\<close> is what the module keeps of each function when instructions are added to
  blocks: the address, the name, the parameters and the number of blocks. \<open>others F\<close> are
  the functions of the module other than \<open>F\<close>. \<open>frame s s'\<close> holds when \<open>s'\<close> differs from \<open>s\<close>
  at most by instructions added to the function the \<^verbatim>\<open>Builder\<close> points to and by names that
  were absent from \<^verbatim>\<open>NamedValues\<close> and are now bound to the null pointer.
\<close>

definition shape :: "(nat \<times> 'd Function) list \<Rightarrow> (nat \<times> string \<times> string list \<times> nat) list" where
  "shape m = map (\<lambda>(a, g). (a, fn_name g, fn_args g, length (fn_blocks g))) m"

definition others :: "nat \<Rightarrow> (nat \<times> 'd Function) list \<Rightarrow> (nat \<times> 'd Function) list" where
  "others F m = filter (\<lambda>(a, g). a \<noteq> F) m"

definition frame :: "'d state \<Rightarrow> 'd state \<Rightarrow> bool" where
  "frame s s' \<longleftrightarrow>
     shape (TheModule s') = shape (TheModule s) \<and> InsertPoint s' = InsertPoint s
     \<and> next_addr s' = next_addr s
     \<and> (\<forall>x. NamedValues s' x = NamedValues s x
              \<or> NamedValues s x = None \<and> NamedValues s' x = Some None)
     \<and> (case InsertPoint s of
           None \<Rightarrow> TheModule s' = TheModule s
         | Some (F, b) \<Rightarrow> others F (TheModule s') = others F (TheModule s))"

lemma frame_refl [simp]: "frame s s"
  by (simp add: frame_def split: option.splits)

lemma frame_trans:
  assumes "frame s s1" and "frame s1 s2"
  shows "frame s s2"
proof -
  have "\<forall>x. NamedValues s2 x = NamedValues s x
              \<or> NamedValues s x = None \<and> NamedValues s2 x = Some None"
    using assms unfolding frame_def by metis
  moreover have "case InsertPoint s of
           None \<Rightarrow> TheModule s2 = TheModule s
         | Some (F, b) \<Rightarrow> others F (TheModule s2) = others F (TheModule s)"
    using assms by (auto simp: frame_def split: option.splits)
  moreover have "shape (TheModule s2) = shape (TheModule s)" "InsertPoint s2 = InsertPoint s"
    "next_addr s2 = next_addr s"
    using assms by (simp_all add: frame_def)
  ultimately show ?thesis unfolding frame_def by blast
qed

lemma length_append_at [simp]: "length (append_at b x bs) = length bs"
  by (simp add: append_at_def)

lemma others_update:
  "others F (map (\<lambda>(a, f). if a = F then (a, h f) else (a, f)) m) = others F m"
  by (induction m) (auto simp: others_def)

lemma shape_append_at:
  "shape (map (\<lambda>(a, f). if a = F then (a, f\<lparr>fn_blocks := append_at b I (fn_blocks f)\<rparr>) else (a, f)) m)
     = shape m"
  by (induction m) (auto simp: shape_def)

lemma frame_Insert: "frame s (Insert I s)"
  by (auto simp: frame_def Insert_def shape_append_at others_update split: option.splits)

lemma frame_LogError: "frame s (LogError Str s)"
  by (simp add: frame_def LogError_def split: option.splits)

lemma frame_subscript: "frame s (s\<lparr>NamedValues := snd (subscript None (NamedValues s) Name)\<rparr>)"
  by (simp add: frame_def subscript_def split: option.splits)

lemma frame_Create: "Create L I s = (v, s') \<Longrightarrow> frame s s'"
  by (auto simp: Create_def frame_Insert split: option.splits)

lemma frame_codegen:
  "codegen L e s = (r, s') \<Longrightarrow> frame s s'"
  "codegen_args L es acc s = (rs, s') \<Longrightarrow> frame s s'"
proof (induction L e s and L es acc s arbitrary: r s' and rs s' rule: codegen_codegen_args.induct)
  case (1 L Val s)
  then show ?case by simp
next
  case (2 L Name s)
  let ?s1 = "s\<lparr>NamedValues := snd (subscript None (NamedValues s) Name)\<rparr>"
  have "s' = ?s1 \<or> s' = LogError ''Unknown Variable name'' ?s1"
    using 2 by (auto simp: Let_def split: option.splits prod.splits)
  then show ?case
    using frame_subscript [of s Name] frame_LogError [of ?s1] by (auto intro: frame_trans)
next
  case (3 L Op LHS RHS s)
  obtain l s1 where l: "codegen L LHS s = (l, s1)" by (cases "codegen L LHS s")
  obtain r' s2 where r: "codegen L RHS s1 = (r', s2)" by (cases "codegen L RHS s1")
  have f1: "frame s s1" using "3.IH"(1) l by simp
  have f2: "frame s1 s2" using "3.IH"(2) [OF l [symmetric] refl r] .
  have f12: "frame s s2" using f1 f2 by (rule frame_trans)
  have "frame s2 s'"
    using "3.prems" l r
    by (auto simp: Let_def split: option.splits prod.splits if_splits
             intro: frame_Create frame_LogError frame_trans [OF frame_Create frame_Create])
  with f12 show ?case by (rule frame_trans)
next
  case (4 L Callee Args s)
  show ?case
  proof (cases "getFunction (TheModule s) Callee")
    case None
    with 4 show ?thesis by (auto intro: frame_LogError)
  next
    case (Some Ff)
    obtain F f where Ff: "Ff = (F, f)" by (cases Ff)
    show ?thesis
    proof (cases "length (fn_args f) \<noteq> length Args")
      case True
      with 4 Some Ff show ?thesis by (auto intro: frame_LogError)
    next
      case False
      obtain vs s1 where a: "codegen_args L Args [] s = (vs, s1)" by (cases "codegen_args L Args [] s")
      have "frame s s1" using "4.IH" [OF Some Ff [symmetric] False a] .
      moreover have "frame s1 s'"
        using "4.prems" Some Ff False a by (auto split: option.splits intro: frame_Insert)
      ultimately show ?thesis by (rule frame_trans)
    qed
  qed
next
  case (5 L ArgsV s)
  then show ?case by simp
next
  case (6 L A As ArgsV s)
  obtain v s1 where a: "codegen L A s = (v, s1)" by (cases "codegen L A s")
  have f1: "frame s s1" using "6.IH"(1) a by simp
  show ?case
  proof (cases v)
    case None
    with 6 a f1 show ?thesis by simp
  next
    case (Some x)
    have "frame s1 s'"
      using "6.IH"(2) [OF a [symmetric] Some] "6.prems" a Some by simp
    with f1 show ?thesis by (rule frame_trans)
  qed
qed


section \<open>Lowering of function definitions\<close>

text \<open>
  The state in which \<^verbatim>\<open>FunctionAST::codegen\<close> lowers the body of the function at
  address \<open>F\<close>: the entry block is there, the \<^verbatim>\<open>Builder\<close> points to it, and \<^verbatim>\<open>NamedValues\<close>
  holds the parameters of \<open>f\<close> and nothing else. \<open>signatures\<close> are the address, the name and
  the parameters of each function of the module.
\<close>

definition body_state :: "nat \<Rightarrow> 'd Function \<Rightarrow> 'd state \<Rightarrow> 'd state" where
  "body_state F f s =
     (BasicBlock_Create F s)
       \<lparr>InsertPoint := Some (F, 0), NamedValues := record_args F 0 (fn_args f) Map.empty\<rparr>"


lemma FunctionAST_codegen_declared:
  "getFunction (TheModule s) Name = Some (F, f) \<Longrightarrow>
   FunctionAST_codegen L (FunctionAST (PrototypeAST Name Args) Body) s =
     (if fn_blocks f \<noteq> [] then (None, LogError ''Function cannot be redefined'' s)
      else case codegen L Body (body_state F f s) of
             (Some v, s4) \<Rightarrow> (Some F, Insert (Ret v) s4)
           | (None, s4) \<Rightarrow> (None, eraseFromParent F s4))"
  by (simp add: FunctionAST_codegen.simps body_state_def Let_def split: prod.splits option.splits)












definition f_imported :: "string state" where
  "f_imported = snd (PrototypeAST_codegen plain_LLVM (PrototypeAST ''f'' []) (init_state (\<lambda>run. run) []))"



text \<open>
  The first step of \<^verbatim>\<open>FunctionAST::codegen\<close>: the function the module has under the name of
  the prototype, or else the one that \<^verbatim>\<open>PrototypeAST::codegen\<close> creates. A module is well
  formed when no two of its functions have the same address and \<open>next_addr\<close> is above all of
  them; the new module is, and lowering keeps it so.
\<close>

definition find_or_declare :: "'d LLVM \<Rightarrow> PrototypeAST \<Rightarrow> 'd state
                               \<Rightarrow> (nat \<times> 'd Function) option \<times> 'd state" where
  "find_or_declare L Proto s =
     (case getFunction (TheModule s) (getName Proto) of
        None \<Rightarrow> PrototypeAST_codegen L Proto s
      | Some Ff \<Rightarrow> (Some Ff, s))"

definition wf_module :: "'d state \<Rightarrow> bool" where
  "wf_module s \<longleftrightarrow>
     distinct (map fst (TheModule s)) \<and> (\<forall>a\<in>set (map fst (TheModule s)). a < next_addr s)"

lemma FunctionAST_codegen_find_or_declare:
  "find_or_declare L Proto s = (Some (F, f), s1) \<Longrightarrow> fn_blocks f = [] \<Longrightarrow>
   FunctionAST_codegen L (FunctionAST Proto Body) s =
     (case codegen L Body (body_state F f s1) of
        (Some v, s4) \<Rightarrow> (Some F, Insert (Ret v) s4)
      | (None, s4) \<Rightarrow> (None, eraseFromParent F s4))"
  by (simp add: FunctionAST_codegen.simps find_or_declare_def body_state_def Let_def
           split: prod.splits option.splits)

lemma getFunction_set: "getFunction m Name = Some (F, f) \<Longrightarrow> (F, f) \<in> set m \<and> fn_name f = Name"
  by (auto simp: getFunction_def find_Some_iff split: if_splits) (metis nth_mem)

lemma find_or_declare_module:
  assumes "find_or_declare L Proto s = (Some (F, f), s1)" and "wf_module s"
  shows "map_of (TheModule s1) F = Some f" and "others F (TheModule s1) = others F (TheModule s)"
    and "wf_module s1"
proof -
  have "map_of (TheModule s1) F = Some f \<and> others F (TheModule s1) = others F (TheModule s) \<and> wf_module s1"
  proof (cases "getFunction (TheModule s) (getName Proto)")
    case None
    obtain Name Args where P: "Proto = PrototypeAST Name Args" by (cases Proto)
    from assms None P have F: "F = next_addr s" and s1: "TheModule s1 = TheModule s @ [(F, f)]"
      and n: "next_addr s1 = Suc (next_addr s)"
      by (auto simp: find_or_declare_def Let_def)
    have fresh: "F \<notin> fst ` set (TheModule s)"
      using assms(2) F by (auto simp: wf_module_def)
    then have "map_of (TheModule s) F = None" by (simp add: map_of_eq_None_iff)
    then have "map_of (TheModule s1) F = Some f" by (simp add: s1 map_add_def)
    moreover have "others F (TheModule s1) = others F (TheModule s)"
      by (simp add: s1 others_def)
    moreover have "wf_module s1"
      using assms(2) fresh F by (auto simp: wf_module_def s1 n)
    ultimately show ?thesis by simp
  next
    case (Some Ff)
    with assms have g: "getFunction (TheModule s) (getName Proto) = Some (F, f)" and s1: "s1 = s"
      by (auto simp: find_or_declare_def)
    have "(F, f) \<in> set (TheModule s)" using getFunction_set [OF g] by simp
    then have "map_of (TheModule s) F = Some f"
      using assms(2) by (simp add: wf_module_def)
    then show ?thesis using s1 assms(2) by simp
  qed
  then show "map_of (TheModule s1) F = Some f" and "others F (TheModule s1) = others F (TheModule s)"
    and "wf_module s1" by simp_all
qed


lemma map_of_update:
  "map_of m F = Some g \<Longrightarrow>
   map_of (map (\<lambda>(a, f). if a = F then (a, h f) else (a, f)) m) F = Some (h g)"
  by (induction m) (auto split: if_splits)

lemma map_of_shape: "map_of (shape m) F = map_option (\<lambda>g. (fn_name g, fn_args g, length (fn_blocks g))) (map_of m F)"
  by (induction m) (auto simp: shape_def)

lemma map_fst_shape: "map fst (shape m) = map fst m"
  by (simp add: shape_def split_def comp_def)

lemma body_state_module:
  assumes "map_of (TheModule s1) F = Some f" and "fn_blocks f = []"
  shows "map_of (TheModule (body_state F f s1)) F = Some (f\<lparr>fn_blocks := [[]]\<rparr>)"
    and "others F (TheModule (body_state F f s1)) = others F (TheModule s1)"
    and "InsertPoint (body_state F f s1) = Some (F, 0)"
    and "map fst (TheModule (body_state F f s1)) = map fst (TheModule s1)"
    and "next_addr (body_state F f s1) = next_addr s1"
proof -
  show "map_of (TheModule (body_state F f s1)) F = Some (f\<lparr>fn_blocks := [[]]\<rparr>)"
    using map_of_update [OF assms(1), of "\<lambda>f. f\<lparr>fn_blocks := fn_blocks f @ [[]]\<rparr>"] assms(2)
    by (simp add: body_state_def BasicBlock_Create_def)
  show "others F (TheModule (body_state F f s1)) = others F (TheModule s1)"
    by (simp add: body_state_def BasicBlock_Create_def others_update)
  show "InsertPoint (body_state F f s1) = Some (F, 0)"
    by (simp add: body_state_def)
  show "map fst (TheModule (body_state F f s1)) = map fst (TheModule s1)"
    by (simp add: body_state_def BasicBlock_Create_def comp_def split_def)
  show "next_addr (body_state F f s1) = next_addr s1"
    by (simp add: body_state_def BasicBlock_Create_def)
qed

lemma frame_module:
  assumes "frame s s'" and "map_of (TheModule s) F = Some g"
  shows "\<exists>g'. map_of (TheModule s') F = Some g' \<and> fn_name g' = fn_name g \<and> fn_args g' = fn_args g
              \<and> length (fn_blocks g') = length (fn_blocks g)"
proof -
  have "map_of (shape (TheModule s')) F = map_of (shape (TheModule s)) F"
    using assms(1) by (simp add: frame_def)
  then show ?thesis
    using assms(2) by (auto simp: map_of_shape)
qed

lemma frame_addresses:
  assumes "frame s s'"
  shows "map fst (TheModule s') = map fst (TheModule s)"
proof -
  from assms have "shape (TheModule s') = shape (TheModule s)" by (simp add: frame_def)
  then have "map fst (shape (TheModule s')) = map fst (shape (TheModule s))" by simp
  then show ?thesis by (simp only: map_fst_shape)
qed

lemma Insert_block:
  assumes "InsertPoint s = Some (F, 0)" and "map_of (TheModule s) F = Some g"
    and "length (fn_blocks g) = 1"
  shows "\<exists>is. fn_blocks g = [is]
              \<and> map_of (TheModule (Insert I s)) F = Some (g\<lparr>fn_blocks := [is @ [I]]\<rparr>)"
proof -
  from assms(3) obtain "is" where "is": "fn_blocks g = [is]"
    by (cases "fn_blocks g") auto
  have "map_of (TheModule (Insert I s)) F = Some (g\<lparr>fn_blocks := append_at 0 I (fn_blocks g)\<rparr>)"
    using map_of_update [OF assms(2), of "\<lambda>f. f\<lparr>fn_blocks := append_at 0 I (fn_blocks f)\<rparr>"] assms(1)
    by (simp add: Insert_def)
  with "is" show ?thesis by (simp add: append_at_def)
qed

lemma dom_record_args: "dom (record_args F i as m) = dom m \<union> set as"
  by (induction as arbitrary: i m) auto

text \<open>
  The names that the loop over the parameters binds: each name to its parameter, a later
  parameter winning over an earlier one of the same name.
\<close>

lemma record_args_map_of:
  "record_args F k as m
     = m ++ map_of (rev (zip as (map (\<lambda>i. Some (Argument F i)) [k..<k + length as])))"
proof (induction as arbitrary: k m)
  case Nil
  show ?case by simp
next
  case (Cons a as)
  have u: "[k..<k + length (a # as)] = k # [Suc k..<Suc k + length as]"
    using upt_conv_Cons [of k "Suc (k + length as)"] by (simp del: upt_Suc)
  let ?X = "map_of (rev (zip as (map (\<lambda>i. Some (Argument F i)) [Suc k..<Suc k + length as])))"
  have l: "record_args F k (a # as) m = m(a \<mapsto> Some (Argument F k)) ++ ?X"
    using Cons.IH [of "Suc k" "m(a \<mapsto> Some (Argument F k))"] by (simp only: record_args.simps)
  have x: "map_of (rev (zip (a # as) (map (\<lambda>i. Some (Argument F i)) [k..<k + length (a # as)])))
          = map_of [(a, Some (Argument F k))] ++ ?X"
    unfolding u by (simp only: list.map zip_Cons_Cons rev.simps map_of_append)
  note l
  also have "m(a \<mapsto> Some (Argument F k)) ++ ?X = m ++ (map_of [(a, Some (Argument F k))] ++ ?X)"
    by (rule ext) (simp add: map_add_def split: option.splits)
  also have "\<dots> = m ++ map_of (rev (zip (a # as) (map (\<lambda>i. Some (Argument F i)) [k..<k + length (a # as)])))"
    by (rule arg_cong [where f = "\<lambda>x. m ++ x"]) (rule x [symmetric])
  finally show ?case .
qed

lemma NamedValues_body_state:
  "NamedValues (body_state F f s)
     = map_of (rev (zip (fn_args f) (map (\<lambda>i. Some (Argument F i)) [0..<length (fn_args f)])))"
  using record_args_map_of [of F 0 "fn_args f" Map.empty]
  by (simp add: body_state_def)

text \<open>
  A function that \<^verbatim>\<open>PrototypeAST::codegen\<close> has just created is not among the functions
  the module had.
\<close>

lemma find_or_declare_new:
  assumes "find_or_declare L Proto s = (Some (F, f), s1)" and "wf_module s"
    and "getFunction (TheModule s) (getName Proto) = None"
  shows "others F (TheModule s) = TheModule s"
proof -
  obtain Name Args where P: "Proto = PrototypeAST Name Args" by (cases Proto)
  from assms P have F: "F = next_addr s"
    by (auto simp: find_or_declare_def Let_def)
  have "\<forall>x\<in>set (TheModule s). fst x \<noteq> F"
    using assms(2) F by (auto simp: wf_module_def)
  then have "filter (\<lambda>(a, g). a \<noteq> F) (TheModule s) = TheModule s"
    by (intro filter_True) auto
  then show ?thesis by (simp add: others_def)
qed

text \<open>
  C5. Let \<open>F\<close> be the function that \<^verbatim>\<open>FunctionAST::codegen\<close> finds or declares, with no body
  yet. The body is lowered in a state where \<open>F\<close> has its entry block, empty, the \<^verbatim>\<open>Builder\<close>
  points to it, and \<^verbatim>\<open>NamedValues\<close> binds each parameter name of \<open>F\<close> to its parameter and
  nothing else. When the body gives a value, the result is \<open>F\<close>, whose only block now ends
  with the return of that value, and the other functions of the module are as before. When
  the body fails, the result is the null pointer and \<open>F\<close> is no longer in the module, which
  is the module before the definition without \<open>F\<close>: nothing of the function remains. That
  is the module before the definition when the name was new. When an earlier \<^verbatim>\<open>import\<close> had
  declared the name, the declaration is erased with the function, and the module is not
  what it was.
\<close>

theorem FunctionAST_codegen_outcome:
  assumes "wf_module s"
    and "find_or_declare L Proto s = (Some (F, f), s1)"
    and "fn_blocks f = []"
  shows "map_of (TheModule (body_state F f s1)) F = Some (f\<lparr>fn_blocks := [[]]\<rparr>)
         \<and> InsertPoint (body_state F f s1) = Some (F, 0)
         \<and> NamedValues (body_state F f s1)
             = map_of (rev (zip (fn_args f) (map (\<lambda>i. Some (Argument F i)) [0..<length (fn_args f)])))
         \<and> (case codegen L Body (body_state F f s1) of
              (Some RetVal, s4) \<Rightarrow>
                FunctionAST_codegen L (FunctionAST Proto Body) s = (Some F, Insert (Ret RetVal) s4)
                \<and> others F (TheModule (Insert (Ret RetVal) s4)) = others F (TheModule s)
                \<and> (\<exists>g is. map_of (TheModule (Insert (Ret RetVal) s4)) F = Some g
                      \<and> fn_name g = fn_name f \<and> fn_args g = fn_args f
                      \<and> fn_blocks g = [is @ [Ret RetVal]])
            | (None, s4) \<Rightarrow>
                FunctionAST_codegen L (FunctionAST Proto Body) s = (None, eraseFromParent F s4)
                \<and> TheModule (eraseFromParent F s4) = others F (TheModule s)
                \<and> F \<notin> set (map fst (TheModule (eraseFromParent F s4)))
                \<and> (getFunction (TheModule s) (getName Proto) = None
                      \<longrightarrow> TheModule (eraseFromParent F s4) = TheModule s)
                \<and> (getFunction (TheModule s) (getName Proto) = Some (F, f)
                      \<longrightarrow> (F, f) \<in> set (TheModule s)
                          \<and> TheModule (eraseFromParent F s4) \<noteq> TheModule s))"
proof -
  let ?s3 = "body_state F f s1"
  obtain r s4 where body: "codegen L Body ?s3 = (r, s4)" by (cases "codegen L Body ?s3")
  have fr: "frame ?s3 s4" using body by (rule frame_codegen)
  note fd = find_or_declare_module [OF assms(2) assms(1)]
  note bs = body_state_module [OF fd(1) assms(3)]
  have ip: "InsertPoint s4 = Some (F, 0)" using fr bs(3) by (simp add: frame_def)
  have oth: "others F (TheModule s4) = others F (TheModule s)"
    using fr bs(2,3) fd(2) by (simp add: frame_def)
  note env = NamedValues_body_state [of F f s1]
  show ?thesis
  proof (cases r)
    case None
    have a: "FunctionAST_codegen L (FunctionAST Proto Body) s = (None, eraseFromParent F s4)"
      using FunctionAST_codegen_find_or_declare [OF assms(2,3)] body None by simp
    have b: "TheModule (eraseFromParent F s4) = others F (TheModule s)"
      using oth by (simp add: eraseFromParent_def others_def)
    have c: "F \<notin> set (map fst (TheModule (eraseFromParent F s4)))"
      by (auto simp: eraseFromParent_def)
    have d: "TheModule (eraseFromParent F s4) = TheModule s"
      if "getFunction (TheModule s) (getName Proto) = None"
      using b find_or_declare_new [OF assms(2,1) that] by simp
    have e: "(F, f) \<in> set (TheModule s) \<and> TheModule (eraseFromParent F s4) \<noteq> TheModule s"
      if "getFunction (TheModule s) (getName Proto) = Some (F, f)"
    proof -
      have m: "(F, f) \<in> set (TheModule s)" using getFunction_set [OF that] by simp
      then have "F \<in> set (map fst (TheModule s))" by force
      with c m show ?thesis by metis
    qed
    from a b c d e show ?thesis using env bs(1,3) body None by simp
  next
    case (Some v)
    have "FunctionAST_codegen L (FunctionAST Proto Body) s = (Some F, Insert (Ret v) s4)"
      using FunctionAST_codegen_find_or_declare [OF assms(2,3)] body Some by simp
    moreover have "others F (TheModule (Insert (Ret v) s4)) = others F (TheModule s)"
      using oth ip by (simp add: Insert_def others_update)
    moreover have "\<exists>g is. map_of (TheModule (Insert (Ret v) s4)) F = Some g
                      \<and> fn_name g = fn_name f \<and> fn_args g = fn_args f
                      \<and> fn_blocks g = [is @ [Ret v]]"
    proof -
      from frame_module [OF fr bs(1)] obtain g4 where g4: "map_of (TheModule s4) F = Some g4"
        "fn_name g4 = fn_name f" "fn_args g4 = fn_args f" "length (fn_blocks g4) = 1"
        by auto
      from Insert_block [OF ip g4(1) g4(4), of "Ret v"] g4(2,3) show ?thesis by auto
    qed
    ultimately show ?thesis using env bs(1,3) body Some by simp
  qed
qed

lemma wf_module_init: "wf_module (init_state strtod inp)"
  by (simp add: wf_module_def init_state_def)

lemma wf_module_frame: "frame s s' \<Longrightarrow> wf_module s \<Longrightarrow> wf_module s'"
  using frame_addresses [of s s'] by (simp add: wf_module_def frame_def)

lemma wf_module_PrototypeAST_codegen:
  "wf_module s \<Longrightarrow> wf_module (snd (PrototypeAST_codegen L Proto s))"
  by (cases Proto) (auto simp: wf_module_def Let_def)

lemma wf_module_FunctionAST_codegen:
  assumes "wf_module s"
  shows "wf_module (snd (FunctionAST_codegen L (FunctionAST Proto Body) s))"
proof -
  obtain Ff s1 where fd: "find_or_declare L Proto s = (Ff, s1)" by (cases "find_or_declare L Proto s")
  have "Ff \<noteq> None"
  proof (cases "getFunction (TheModule s) (getName Proto)")
    case None
    then show ?thesis using fd by (cases Proto) (auto simp: find_or_declare_def Let_def)
  next
    case (Some a)
    then have "Ff = Some a" using fd by (simp add: find_or_declare_def)
    then show ?thesis by simp
  qed
  then obtain F f where Ff: "Ff = Some (F, f)" by auto
  note m = find_or_declare_module [OF fd [unfolded Ff] assms]
  show ?thesis
  proof (cases "fn_blocks f = []")
    case True
    let ?s3 = "body_state F f s1"
    obtain r s4 where body: "codegen L Body ?s3 = (r, s4)" by (cases "codegen L Body ?s3")
    note bs = body_state_module [OF m(1) True]
    have "wf_module ?s3" using m(3) bs(4,5) by (simp add: wf_module_def)
    then have w4: "wf_module s4" using frame_codegen(1) [OF body] wf_module_frame by blast
    have "wf_module (Insert I s4)" for I using w4 frame_Insert wf_module_frame by blast
    moreover have "wf_module (eraseFromParent F s4)"
      using w4 by (auto simp: wf_module_def eraseFromParent_def distinct_map_filter)
    ultimately show ?thesis
      using FunctionAST_codegen_find_or_declare [OF fd [unfolded Ff] True, of Body] body
      by (auto split: option.splits)
  next
    case False
    have "s1 = s \<and> getFunction (TheModule s) (getName Proto) = Some (F, f)"
    proof (cases "getFunction (TheModule s) (getName Proto)")
      case None
      then show ?thesis using fd Ff False by (cases Proto) (auto simp: find_or_declare_def Let_def)
    next
      case (Some a)
      then show ?thesis using fd Ff by (auto simp: find_or_declare_def)
    qed
    then have "s1 = s" and "getFunction (TheModule s) (getName Proto) = Some (F, f)" by simp_all
    then have "snd (FunctionAST_codegen L (FunctionAST Proto Body) s) = LogError ''Function cannot be redefined'' s"
      using False by (cases Proto) (simp add: FunctionAST_codegen_declared)
    then show ?thesis using assms by (simp add: wf_module_def LogError_def)
  qed
qed

text \<open>
  After \<^verbatim>\<open>import f()\<close> the definition \<^verbatim>\<open>fn f() x\<close> fails, and the module, which had the
  declaration of \<^verbatim>\<open>f\<close>, is empty: lowering the definition has not left the module as it
  was.
\<close>

theorem FunctionAST_codegen_erases_import:
  "TheModule f_imported = [(0, \<lparr>fn_name = ''f'', fn_args = [], fn_blocks = []\<rparr>)]
   \<and> FunctionAST_codegen plain_LLVM (FunctionAST (PrototypeAST ''f'' []) (VariableExprAST ''x'')) f_imported
       = (None, f_imported\<lparr>TheModule := [], NamedValues := [''x'' \<mapsto> None], InsertPoint := Some (0, 0),
                           stderr := [''Error: Unknown Variable name'']\<rparr>)
   \<and> TheModule (snd (FunctionAST_codegen plain_LLVM
                        (FunctionAST (PrototypeAST ''f'' []) (VariableExprAST ''x'')) f_imported))
       \<noteq> TheModule f_imported"
  by (simp add: f_imported_def cg_eval)

text \<open>
  In a new module \<^verbatim>\<open>fn g(x y) y-x\<close> gives the function its block, with the second parameter
  for \<^verbatim>\<open>y\<close> and the first for \<^verbatim>\<open>x\<close>, and \<^verbatim>\<open>fn g(x y) z\<close> fails and leaves the module
  empty as it was.
\<close>

theorem FunctionAST_codegen_outcome_witness:
  "wf_module (init_state (\<lambda>run. run) [])
   \<and> FunctionAST_codegen plain_LLVM
         (FunctionAST (PrototypeAST ''g'' [''x'', ''y''])
            (BinaryExprAST CHR ''-'' (VariableExprAST ''y'') (VariableExprAST ''x'')))
         (init_state (\<lambda>run. run) [])
       = (Some 0,
          (init_state (\<lambda>run. run) [])
            \<lparr>TheModule := [(0, \<lparr>fn_name = ''g'', fn_args = [''x'', ''y''],
                                 fn_blocks = [[FSub (Argument 0 1) (Argument 0 0),
                                               Ret (FSub (Argument 0 1) (Argument 0 0))]]\<rparr>)],
              NamedValues := [''x'' \<mapsto> Some (Argument 0 0), ''y'' \<mapsto> Some (Argument 0 1)],
              InsertPoint := Some (0, 0), next_addr := 1\<rparr>)
   \<and> FunctionAST_codegen plain_LLVM
         (FunctionAST (PrototypeAST ''g'' [''x'', ''y'']) (VariableExprAST ''z''))
         (init_state (\<lambda>run. run) [])
       = (None,
          (init_state (\<lambda>run. run) [])
            \<lparr>TheModule := [],
              NamedValues := [''x'' \<mapsto> Some (Argument 0 0), ''y'' \<mapsto> Some (Argument 0 1), ''z'' \<mapsto> None],
              InsertPoint := Some (0, 0), next_addr := 1,
              stderr := [''Error: Unknown Variable name'']\<rparr>)"
proof -
  let ?s = "init_state (\<lambda>run. run) [] :: string state"
  let ?P = "PrototypeAST ''g'' [''x'', ''y'']"
  let ?f = "\<lparr>fn_name = ''g'', fn_args = [''x'', ''y''], fn_blocks = []\<rparr> :: string Function"
  let ?s1 = "?s\<lparr>TheModule := [(0, ?f)], next_addr := 1\<rparr>"
  let ?ok = "BinaryExprAST CHR ''-'' (VariableExprAST ''y'') (VariableExprAST ''x'') :: string ExprAST"
  have wf: "wf_module ?s" by (rule wf_module_init)
  have fd: "find_or_declare plain_LLVM ?P ?s = (Some (0, ?f), ?s1)"
    by (simp add: find_or_declare_def getFunction_def init_state_def plain_LLVM_def setName_def Let_def)
  have new: "getFunction (TheModule ?s) (getName ?P) = None"
    by (simp add: getFunction_def init_state_def)
  have bs: "body_state 0 ?f ?s1
              = ?s\<lparr>TheModule := [(0, ?f\<lparr>fn_blocks := [[]]\<rparr>)],
                   NamedValues := [''x'' \<mapsto> Some (Argument 0 0), ''y'' \<mapsto> Some (Argument 0 1)],
                   InsertPoint := Some (0, 0), next_addr := 1\<rparr>"
    by (simp add: body_state_def BasicBlock_Create_def init_state_def)
  have ok: "codegen plain_LLVM ?ok (body_state 0 ?f ?s1)
              = (Some (FSub (Argument 0 1) (Argument 0 0)),
                 ?s\<lparr>TheModule := [(0, ?f\<lparr>fn_blocks := [[FSub (Argument 0 1) (Argument 0 0)]]\<rparr>)],
                   NamedValues := [''x'' \<mapsto> Some (Argument 0 0), ''y'' \<mapsto> Some (Argument 0 1)],
                   InsertPoint := Some (0, 0), next_addr := 1\<rparr>)"
    unfolding bs
    by (simp add: plain_LLVM_def Create_def Insert_def append_at_def subscript_def init_state_def)
  have bad: "codegen plain_LLVM (VariableExprAST ''z'') (body_state 0 ?f ?s1)
              = (None,
                 ?s\<lparr>TheModule := [(0, ?f\<lparr>fn_blocks := [[]]\<rparr>)],
                   NamedValues := [''x'' \<mapsto> Some (Argument 0 0), ''y'' \<mapsto> Some (Argument 0 1), ''z'' \<mapsto> None],
                   InsertPoint := Some (0, 0), next_addr := 1,
                   stderr := [''Error: Unknown Variable name'']\<rparr>)"
    unfolding bs
    by (simp add: subscript_def LogError_def init_state_def)
  have a: "FunctionAST_codegen plain_LLVM (FunctionAST ?P ?ok) ?s
       = (Some 0,
          ?s\<lparr>TheModule := [(0, \<lparr>fn_name = ''g'', fn_args = [''x'', ''y''],
                                 fn_blocks = [[FSub (Argument 0 1) (Argument 0 0),
                                               Ret (FSub (Argument 0 1) (Argument 0 0))]]\<rparr>)],
              NamedValues := [''x'' \<mapsto> Some (Argument 0 0), ''y'' \<mapsto> Some (Argument 0 1)],
              InsertPoint := Some (0, 0), next_addr := 1\<rparr>)"
    using FunctionAST_codegen_outcome [OF wf fd, of ?ok]
    unfolding ok by (simp add: Insert_def append_at_def init_state_def)
  have b: "FunctionAST_codegen plain_LLVM (FunctionAST ?P (VariableExprAST ''z'')) ?s
       = (None,
          ?s\<lparr>TheModule := [],
              NamedValues := [''x'' \<mapsto> Some (Argument 0 0), ''y'' \<mapsto> Some (Argument 0 1), ''z'' \<mapsto> None],
              InsertPoint := Some (0, 0), next_addr := 1,
              stderr := [''Error: Unknown Variable name'']\<rparr>)"
    using FunctionAST_codegen_outcome [OF wf fd, of "VariableExprAST ''z''"] new
    unfolding bad by (simp add: eraseFromParent_def init_state_def)
  from wf a b show ?thesis by simp
qed


section \<open>A definition after an import\<close>

text \<open>The names of the variables an expression refers to.\<close>

fun vars :: "'d ExprAST \<Rightarrow> string set" where
  "vars (NumberExprAST Val) = {}"
| "vars (VariableExprAST Name) = {Name}"
| "vars (BinaryExprAST Op LHS RHS) = vars LHS \<union> vars RHS"
| "vars (CallExprAST Callee Args) = (\<Union>A\<in>set Args. vars A)"

lemma frame_bound:
  "frame s s' \<Longrightarrow> NamedValues s' x = Some (Some w) \<Longrightarrow> NamedValues s x = Some (Some w)"
  unfolding frame_def by (metis option.inject option.distinct(1))

lemma codegen_bound:
  "codegen L e s = (Some v, s') \<Longrightarrow> \<forall>x\<in>vars e. \<exists>w. NamedValues s x = Some (Some w)"
  "codegen_args L es acc s = (Some vs, s') \<Longrightarrow> \<forall>e\<in>set es. \<forall>x\<in>vars e. \<exists>w. NamedValues s x = Some (Some w)"
proof (induction L e s and L es acc s arbitrary: v s' and vs s' rule: codegen_codegen_args.induct)
  case (1 L Val s)
  then show ?case by simp
next
  case (2 L Name s)
  then show ?case
    by (auto simp: subscript_def Let_def split: option.splits)
next
  case (3 L Op LHS RHS s)
  obtain l s1 where l: "codegen L LHS s = (l, s1)" by (cases "codegen L LHS s")
  obtain r s2 where r: "codegen L RHS s1 = (r, s2)" by (cases "codegen L RHS s1")
  from "3.prems" l r obtain lv rv where lv: "l = Some lv" and rv: "r = Some rv"
    by (auto simp: Let_def split: option.splits)
  have a: "\<forall>x\<in>vars LHS. \<exists>w. NamedValues s x = Some (Some w)"
    using "3.IH"(1) l lv by simp
  have "\<forall>x\<in>vars RHS. \<exists>w. NamedValues s1 x = Some (Some w)"
    using "3.IH"(2) [OF l [symmetric] refl] r rv by simp
  then have "\<forall>x\<in>vars RHS. \<exists>w. NamedValues s x = Some (Some w)"
    using frame_bound [OF frame_codegen(1) [OF l]] by blast
  with a show ?case by auto
next
  case (4 L Callee Args s)
  from "4.prems" obtain F f where g: "getFunction (TheModule s) Callee = Some (F, f)"
    by (auto split: option.splits)
  with "4.prems" have len: "\<not> length (fn_args f) \<noteq> length Args"
    by (auto split: if_splits)
  obtain as s1 where a: "codegen_args L Args [] s = (as, s1)" by (cases "codegen_args L Args [] s")
  with "4.prems" g len obtain av where "as = Some av" by (auto split: option.splits)
  with "4.IH" [OF g refl len] a show ?case by auto
next
  case (5 L ArgsV s)
  then show ?case by simp
next
  case (6 L A As ArgsV s)
  obtain a s1 where a: "codegen L A s = (a, s1)" by (cases "codegen L A s")
  with "6.prems" obtain av where av: "a = Some av" by (auto split: option.splits)
  have x: "\<forall>x\<in>vars A. \<exists>w. NamedValues s x = Some (Some w)"
    using "6.IH"(1) a av by simp
  have "\<forall>e\<in>set As. \<forall>x\<in>vars e. \<exists>w. NamedValues s1 x = Some (Some w)"
    using "6.IH"(2) [OF a [symmetric] av] "6.prems" a av by simp
  then have "\<forall>e\<in>set As. \<forall>x\<in>vars e. \<exists>w. NamedValues s x = Some (Some w)"
    using frame_bound [OF frame_codegen(1) [OF a]] by blast
  with x show ?case by auto
qed

lemma setArgNames_distinct:
  "distinct (named @ Args) \<Longrightarrow> setArgNames L named Args = named @ Args"
  by (induction Args arbitrary: named) (auto simp: setName_def)

lemma getFunction_None: "Name \<noteq> [] \<Longrightarrow> getFunction m Name = None \<Longrightarrow> Name \<notin> set (map (\<lambda>(a, f). fn_name f) m)"
  by (auto simp: getFunction_def find_None_iff)

lemma getFunction_append:
  "Name \<noteq> [] \<Longrightarrow> getFunction m Name = None \<Longrightarrow> fn_name f = Name
   \<Longrightarrow> getFunction (m @ [(F, f)]) Name = Some (F, f)"
  by (induction m) (auto simp: getFunction_def)

lemma record_args_other: "x \<notin> set as \<Longrightarrow> record_args F k as m x = m x"
  by (induction as arbitrary: k m) auto

lemma record_args_bound:
  "x \<in> set as \<Longrightarrow> \<exists>i. record_args F k as m x = Some (Some (Argument F i))"
proof (induction as arbitrary: k m)
  case Nil
  then show ?case by simp
next
  case (Cons a as)
  show ?case
  proof (cases "x \<in> set as")
    case True
    then show ?thesis using Cons.IH by simp
  next
    case False
    with Cons.prems have "x = a" by simp
    then show ?thesis using False by (simp add: record_args_other)
  qed
qed

text \<open>
  Lowering only adds messages to \<^verbatim>\<open>stderr\<close>: \<open>reports msgs s s'\<close> holds when \<open>s'\<close> has the
  messages of \<open>s\<close> followed by \<open>msgs\<close>.
\<close>

definition reports :: "string list \<Rightarrow> 'd state \<Rightarrow> 'd state \<Rightarrow> bool" where
  "reports msgs s s' \<longleftrightarrow> stderr s' = stderr s @ msgs"

lemma reports_trans: "reports a s s1 \<Longrightarrow> reports b s1 s2 \<Longrightarrow> reports (a @ b) s s2"
  by (simp add: reports_def)

lemma reports_Insert: "reports [] s (Insert I s)"
  by (simp add: reports_def Insert_def split: option.splits)

lemma reports_Create: "Create L I s = (v, s') \<Longrightarrow> reports [] s s'"
  by (auto simp: Create_def reports_def Insert_def split: option.splits)

lemma reports_codegen:
  "codegen L e s = (r, s') \<Longrightarrow> \<exists>msgs. reports msgs s s'"
  "codegen_args L es acc s = (rs, s') \<Longrightarrow> \<exists>msgs. reports msgs s s'"
proof (induction L e s and L es acc s arbitrary: r s' and rs s' rule: codegen_codegen_args.induct)
  case (1 L Val s)
  then show ?case by (auto simp: reports_def)
next
  case (2 L Name s)
  then show ?case
    by (auto simp: reports_def Let_def LogError_def split: option.splits prod.splits)
next
  case (3 L Op LHS RHS s)
  obtain l s1 where l: "codegen L LHS s = (l, s1)" by (cases "codegen L LHS s")
  obtain r' s2 where r: "codegen L RHS s1 = (r', s2)" by (cases "codegen L RHS s1")
  from "3.IH"(1) l obtain m1 where m1: "reports m1 s s1" by auto
  from "3.IH"(2) [OF l [symmetric] refl r] obtain m2 where m2: "reports m2 s1 s2" by auto
  have "\<exists>m3. reports m3 s2 s'"
    using "3.prems" l r
    by (auto simp: Let_def reports_def LogError_def Create_def Insert_def
             split: option.splits prod.splits if_splits)
  then obtain m3 where "reports m3 s2 s'" by auto
  with reports_trans [OF m1 m2] show ?case by (blast intro: reports_trans)
next
  case (4 L Callee Args s)
  show ?case
  proof (cases "getFunction (TheModule s) Callee")
    case None
    with 4 show ?thesis by (auto simp: reports_def LogError_def)
  next
    case (Some Ff)
    obtain F f where Ff: "Ff = (F, f)" by (cases Ff)
    show ?thesis
    proof (cases "length (fn_args f) \<noteq> length Args")
      case True
      with 4 Some Ff show ?thesis by (auto simp: reports_def LogError_def)
    next
      case False
      obtain vs s1 where a: "codegen_args L Args [] s = (vs, s1)" by (cases "codegen_args L Args [] s")
      from "4.IH" [OF Some Ff [symmetric] False a] obtain m1 where m1: "reports m1 s s1" by auto
      have "\<exists>m2. reports m2 s1 s'"
        using "4.prems" Some Ff False a
        by (auto simp: reports_def Insert_def split: option.splits)
      with m1 show ?thesis by (blast intro: reports_trans)
    qed
  qed
next
  case (5 L ArgsV s)
  then show ?case by (auto simp: reports_def)
next
  case (6 L A As ArgsV s)
  obtain v s1 where a: "codegen L A s = (v, s1)" by (cases "codegen L A s")
  from "6.IH"(1) a obtain m1 where m1: "reports m1 s s1" by auto
  show ?case
  proof (cases v)
    case None
    with 6 a m1 show ?thesis by auto
  next
    case (Some x)
    from "6.IH"(2) [OF a [symmetric] Some] "6.prems" a Some
    obtain m2 where "reports m2 s1 s'" by auto
    with m1 show ?thesis by (blast intro: reports_trans)
  qed
qed

text \<open>
  In an expression without a call every subexpression is lowered, so a reference to a
  name that is not bound to a value is reached and reported. A call lowers its arguments
  only when it knows the callee and the number of arguments fits, and stops at the first
  argument that fails.
\<close>

fun call_free :: "'d ExprAST \<Rightarrow> bool" where
  "call_free (NumberExprAST Val) = True"
| "call_free (VariableExprAST Name) = True"
| "call_free (BinaryExprAST Op LHS RHS) = (call_free LHS \<and> call_free RHS)"
| "call_free (CallExprAST Callee Args) = False"

lemma codegen_reports_unknown:
  assumes "call_free e" and "q \<in> vars e" and "\<forall>w. NamedValues s q \<noteq> Some (Some w)"
  shows "\<exists>msgs. reports msgs s (snd (codegen L e s)) \<and> ''Error: Unknown Variable name'' \<in> set msgs"
  using assms
proof (induction e arbitrary: s)
  case (NumberExprAST x)
  then show ?case by simp
next
  case (VariableExprAST x)
  then have x: "x = q" by simp
  have "NamedValues s q = None \<or> NamedValues s q = Some None"
    using VariableExprAST.prems(3) by (cases "NamedValues s q") auto
  then have "reports [''Error: Unknown Variable name''] s (snd (codegen L (VariableExprAST x) s))"
    unfolding x by (auto simp: reports_def subscript_def LogError_def)
  then show ?case by auto
next
  case (BinaryExprAST Op LHS RHS)
  obtain l s1 where l: "codegen L LHS s = (l, s1)" by (cases "codegen L LHS s")
  obtain r s2 where r: "codegen L RHS s1 = (r, s2)" by (cases "codegen L RHS s1")
  obtain v s' where c: "codegen L (BinaryExprAST Op LHS RHS) s = (v, s')"
    by (cases "codegen L (BinaryExprAST Op LHS RHS) s")
  from reports_codegen(1) [OF l] obtain m1 where m1: "reports m1 s s1" by auto
  from reports_codegen(1) [OF r] obtain m2 where m2: "reports m2 s1 s2" by auto
  have "\<exists>m3. reports m3 s2 s'"
    using c l r
    by (auto simp: Let_def reports_def LogError_def Create_def Insert_def
             split: option.splits prod.splits if_splits)
  then obtain m3 where m3: "reports m3 s2 s'" by auto
  have all: "reports (m1 @ m2 @ m3) s s'"
    using reports_trans [OF m1 reports_trans [OF m2 m3]] .
  have "''Error: Unknown Variable name'' \<in> set m1 \<or> ''Error: Unknown Variable name'' \<in> set m2"
  proof (cases "q \<in> vars LHS")
    case True
    from BinaryExprAST.IH(1) [OF _ True BinaryExprAST.prems(3)] BinaryExprAST.prems(1) l
    obtain msgs where "reports msgs s s1" and "''Error: Unknown Variable name'' \<in> set msgs" by auto
    with m1 show ?thesis by (simp add: reports_def)
  next
    case False
    with BinaryExprAST.prems(2) have q: "q \<in> vars RHS" by simp
    have "\<forall>w. NamedValues s1 q \<noteq> Some (Some w)"
      using frame_bound [OF frame_codegen(1) [OF l]] BinaryExprAST.prems(3) by blast
    from BinaryExprAST.IH(2) [OF _ q this] BinaryExprAST.prems(1) r
    obtain msgs where "reports msgs s1 s2" and "''Error: Unknown Variable name'' \<in> set msgs" by auto
    with m2 show ?thesis by (simp add: reports_def)
  qed
  with all c show ?case by auto
next
  case (CallExprAST Callee Args)
  then show ?case by simp
qed

text \<open>
  A parameter whose name no later parameter has is bound under that name.
\<close>

lemma record_args_nth:
  "i < length as \<Longrightarrow> \<forall>j<length as. i < j \<longrightarrow> as ! j \<noteq> as ! i \<Longrightarrow>
   record_args F k as m (as ! i) = Some (Some (Argument F (k + i)))"
proof (induction as arbitrary: k m i)
  case Nil
  then show ?case by simp
next
  case (Cons a as)
  show ?case
  proof (cases i)
    case 0
    have "a \<notin> set as"
    proof
      assume "a \<in> set as"
      then obtain j where "j < length as" and "as ! j = a" by (auto simp: in_set_conv_nth)
      with Cons.prems(2) [rule_format, of "Suc j"] 0 show False by simp
    qed
    then show ?thesis using 0 by (simp add: record_args_other)
  next
    case (Suc i')
    have "\<forall>j<length as. i' < j \<longrightarrow> as ! j \<noteq> as ! i'"
    proof (intro allI impI)
      fix j assume "j < length as" "i' < j"
      with Cons.prems(2) [rule_format, of "Suc j"] Suc show "as ! j \<noteq> as ! i'" by simp
    qed
    with Cons.IH [of i' "Suc k"] Cons.prems(1) Suc show ?thesis by simp
  qed
qed

text \<open>
  \<^verbatim>\<open>PrototypeAST::codegen\<close> for a name that the module does not know: the parameters get
  the names that \<^verbatim>\<open>setName\<close> gives them one after the other.
\<close>

lemma PrototypeAST_codegen_fresh:
  assumes "Name \<noteq> []" and "getFunction (TheModule s) Name = None"
  shows "PrototypeAST_codegen L (PrototypeAST Name P) s =
           (Some (next_addr s, \<lparr>fn_name = Name, fn_args = setArgNames L [] P, fn_blocks = []\<rparr>),
            s\<lparr>TheModule := TheModule s
                 @ [(next_addr s, \<lparr>fn_name = Name, fn_args = setArgNames L [] P, fn_blocks = []\<rparr>)],
              next_addr := Suc (next_addr s)\<rparr>)"
  using getFunction_None [OF assms(1,2)]
  by (simp add: Let_def setName_def)

text \<open>
  C8. A name that the module does not know is declared by an \<^verbatim>\<open>import\<close> with the parameter
  names \<open>P\<close>, and then defined with the parameter names \<open>Q\<close>. The parameters of the function
  have the names that LLVM gave them at the import: \<open>P\<close> when no name is repeated in \<open>P\<close>, and
  otherwise \<open>P\<close> with each repeated name renamed. The definition finds that function and
  lowers its body with exactly these names in \<^verbatim>\<open>NamedValues\<close>, each bound to its parameter;
  \<open>Q\<close> plays no part. So every body that refers to a name that is not among them fails. A
  body without a call reports the unknown variable error, and the body that is such a name
  reports it as its only message. A body that is one of the names of the function succeeds,
  and returns the parameter of that name.
\<close>

theorem FunctionAST_codegen_imported_names:
  assumes "Name \<noteq> []" and "getFunction (TheModule s) Name = None"
  shows "\<exists>F f s1.
           PrototypeAST_codegen L (PrototypeAST Name P) s = (Some (F, f), s1)
         \<and> getFunction (TheModule s1) Name = Some (F, f) \<and> fn_blocks f = []
         \<and> fn_args f = setArgNames L [] P \<and> (distinct P \<longrightarrow> fn_args f = P)
         \<and> NamedValues (body_state F f s1)
             = map_of (rev (zip (fn_args f) (map (\<lambda>i. Some (Argument F i)) [0..<length (fn_args f)])))
         \<and> (\<forall>Body. FunctionAST_codegen L (FunctionAST (PrototypeAST Name Q) Body) s1
               = (case codegen L Body (body_state F f s1) of
                    (Some v, s4) \<Rightarrow> (Some F, Insert (Ret v) s4)
                  | (None, s4) \<Rightarrow> (None, eraseFromParent F s4)))
         \<and> (\<forall>Body q. q \<in> vars Body \<and> q \<notin> set (fn_args f) \<longrightarrow>
               fst (FunctionAST_codegen L (FunctionAST (PrototypeAST Name Q) Body) s1) = None)
         \<and> (\<forall>Body q. call_free Body \<and> q \<in> vars Body \<and> q \<notin> set (fn_args f) \<longrightarrow>
               (\<exists>msgs. stderr (snd (FunctionAST_codegen L (FunctionAST (PrototypeAST Name Q) Body) s1))
                          = stderr s @ msgs
                      \<and> ''Error: Unknown Variable name'' \<in> set msgs))
         \<and> (\<forall>q. q \<notin> set (fn_args f) \<longrightarrow>
               stderr (snd (FunctionAST_codegen L (FunctionAST (PrototypeAST Name Q) (VariableExprAST q)) s1))
                 = stderr s @ [''Error: Unknown Variable name''])
         \<and> (\<forall>p\<in>set (fn_args f).
               fst (FunctionAST_codegen L (FunctionAST (PrototypeAST Name Q) (VariableExprAST p)) s1) = Some F)
         \<and> (\<forall>i<length (fn_args f).
               (\<forall>j<length (fn_args f). i < j \<longrightarrow> fn_args f ! j \<noteq> fn_args f ! i) \<longrightarrow>
               FunctionAST_codegen L (FunctionAST (PrototypeAST Name Q) (VariableExprAST (fn_args f ! i))) s1
                 = (Some F, Insert (Ret (Argument F i)) (body_state F f s1)))"
proof -
  let ?F = "next_addr s"
  let ?f = "\<lparr>fn_name = Name, fn_args = setArgNames L [] P, fn_blocks = []\<rparr> :: 'a Function"
  let ?s1 = "s\<lparr>TheModule := TheModule s @ [(?F, ?f)], next_addr := Suc ?F\<rparr>"
  let ?s3 = "body_state ?F ?f ?s1"
  let ?UV = "''Error: Unknown Variable name''"
  have proto: "PrototypeAST_codegen L (PrototypeAST Name P) s = (Some (?F, ?f), ?s1)"
    by (rule PrototypeAST_codegen_fresh) fact+
  have g: "getFunction (TheModule ?s1) Name = Some (?F, ?f)"
    using getFunction_append [OF assms(1,2), of ?f ?F] by simp
  have names: "distinct P \<longrightarrow> fn_args ?f = P"
    using setArgNames_distinct [of "[]" P L] by simp
  have env: "NamedValues ?s3 = record_args ?F 0 (fn_args ?f) Map.empty" and err: "stderr ?s3 = stderr s"
    by (simp_all add: body_state_def BasicBlock_Create_def)
  note env' = NamedValues_body_state [of ?F ?f ?s1]
  have dom: "dom (NamedValues ?s3) = set (fn_args ?f)"
    unfolding env by (simp add: dom_record_args)
  have unf: "FunctionAST_codegen L (FunctionAST (PrototypeAST Name Q) Body) ?s1
               = (case codegen L Body ?s3 of
                    (Some v, s4) \<Rightarrow> (Some ?F, Insert (Ret v) s4)
                  | (None, s4) \<Rightarrow> (None, eraseFromParent ?F s4))" for Body
    using FunctionAST_codegen_declared [OF g, of L Q Body] by simp
  have fails: "fst (FunctionAST_codegen L (FunctionAST (PrototypeAST Name Q) Body) ?s1) = None"
    if "q \<in> vars Body \<and> q \<notin> set (fn_args ?f)" for Body q
  proof (rule ccontr)
    assume "fst (FunctionAST_codegen L (FunctionAST (PrototypeAST Name Q) Body) ?s1) \<noteq> None"
    then obtain v s4 where "codegen L Body ?s3 = (Some v, s4)"
      unfolding unf by (auto split: prod.splits option.splits)
    from codegen_bound(1) [OF this] that obtain w where "NamedValues ?s3 q = Some (Some w)"
      by blast
    then have "q \<in> dom (NamedValues ?s3)" by blast
    with dom that show False by simp
  qed
  have said: "\<exists>msgs. stderr (snd (FunctionAST_codegen L (FunctionAST (PrototypeAST Name Q) Body) ?s1))
                          = stderr s @ msgs \<and> ?UV \<in> set msgs"
    if "call_free Body \<and> q \<in> vars Body \<and> q \<notin> set (fn_args ?f)" for Body q
  proof -
    have "NamedValues ?s3 q = None" using dom that by blast
    then have "\<forall>w. NamedValues ?s3 q \<noteq> Some (Some w)" by simp
    from codegen_reports_unknown [OF _ _ this, of Body L] that
    obtain msgs where m: "stderr (snd (codegen L Body ?s3)) = stderr s @ msgs" and u: "?UV \<in> set msgs"
      unfolding reports_def err by blast
    obtain r s4 where c: "codegen L Body ?s3 = (r, s4)" by (cases "codegen L Body ?s3")
    have "stderr (snd (FunctionAST_codegen L (FunctionAST (PrototypeAST Name Q) Body) ?s1)) = stderr s4"
      unfolding unf c
      by (cases r) (simp_all add: eraseFromParent_def Insert_def split: option.splits)
    with m c u show ?thesis by auto
  qed
  have msg: "stderr (snd (FunctionAST_codegen L (FunctionAST (PrototypeAST Name Q) (VariableExprAST q)) ?s1))
             = stderr s @ [?UV]"
    if "q \<notin> set (fn_args ?f)" for q
  proof -
    have "NamedValues ?s3 q = None" using dom that by blast
    then show ?thesis
      unfolding unf using err by (simp add: subscript_def LogError_def eraseFromParent_def)
  qed
  have ok: "fst (FunctionAST_codegen L (FunctionAST (PrototypeAST Name Q) (VariableExprAST p)) ?s1) = Some ?F"
    if "p \<in> set (fn_args ?f)" for p
  proof -
    from record_args_bound [OF that, of ?F 0 Map.empty] obtain i
      where "NamedValues ?s3 p = Some (Some (Argument ?F i))" unfolding env by blast
    then show ?thesis unfolding unf by (simp add: subscript_def)
  qed
  have nth: "FunctionAST_codegen L (FunctionAST (PrototypeAST Name Q) (VariableExprAST (fn_args ?f ! i))) ?s1
                 = (Some ?F, Insert (Ret (Argument ?F i)) ?s3)"
    if "i < length (fn_args ?f)" and "\<forall>j<length (fn_args ?f). i < j \<longrightarrow> fn_args ?f ! j \<noteq> fn_args ?f ! i"
    for i
  proof -
    have "NamedValues ?s3 (fn_args ?f ! i) = Some (Some (Argument ?F i))"
      unfolding env using record_args_nth [OF that, of ?F 0 Map.empty] by simp
    then have "codegen L (VariableExprAST (fn_args ?f ! i)) ?s3 = (Some (Argument ?F i), ?s3)"
      by (simp add: subscript_def)
    then show ?thesis unfolding unf by simp
  qed
  show ?thesis
  proof (intro exI [of _ ?F] exI [of _ ?f] exI [of _ ?s1] conjI)
    show "PrototypeAST_codegen L (PrototypeAST Name P) s = (Some (?F, ?f), ?s1)" by (rule proto)
    show "getFunction (TheModule ?s1) Name = Some (?F, ?f)" by (rule g)
    show "fn_blocks ?f = []" by simp
    show "fn_args ?f = setArgNames L [] P" by simp
    show "distinct P \<longrightarrow> fn_args ?f = P" by (rule names)
    show "NamedValues ?s3
             = map_of (rev (zip (fn_args ?f) (map (\<lambda>i. Some (Argument ?F i)) [0..<length (fn_args ?f)])))"
      by (rule env')
    show "\<forall>Body. FunctionAST_codegen L (FunctionAST (PrototypeAST Name Q) Body) ?s1
               = (case codegen L Body ?s3 of
                    (Some v, s4) \<Rightarrow> (Some ?F, Insert (Ret v) s4)
                  | (None, s4) \<Rightarrow> (None, eraseFromParent ?F s4))"
      using unf by blast
    show "\<forall>Body q. q \<in> vars Body \<and> q \<notin> set (fn_args ?f) \<longrightarrow>
               fst (FunctionAST_codegen L (FunctionAST (PrototypeAST Name Q) Body) ?s1) = None"
      using fails by blast
    show "\<forall>Body q. call_free Body \<and> q \<in> vars Body \<and> q \<notin> set (fn_args ?f) \<longrightarrow>
               (\<exists>msgs. stderr (snd (FunctionAST_codegen L (FunctionAST (PrototypeAST Name Q) Body) ?s1))
                          = stderr s @ msgs
                      \<and> ?UV \<in> set msgs)"
      using said by blast
    show "\<forall>q. q \<notin> set (fn_args ?f) \<longrightarrow>
               stderr (snd (FunctionAST_codegen L (FunctionAST (PrototypeAST Name Q) (VariableExprAST q)) ?s1))
                 = stderr s @ [?UV]"
      using msg by blast
    show "\<forall>p\<in>set (fn_args ?f).
               fst (FunctionAST_codegen L (FunctionAST (PrototypeAST Name Q) (VariableExprAST p)) ?s1) = Some ?F"
      using ok by blast
    show "\<forall>i<length (fn_args ?f).
               (\<forall>j<length (fn_args ?f). i < j \<longrightarrow> fn_args ?f ! j \<noteq> fn_args ?f ! i) \<longrightarrow>
               FunctionAST_codegen L (FunctionAST (PrototypeAST Name Q) (VariableExprAST (fn_args ?f ! i))) ?s1
                 = (Some ?F, Insert (Ret (Argument ?F i)) ?s3)"
      using nth by blast
  qed
qed

text \<open>
  The states after \<^verbatim>\<open>import f(a a)\<close> and after \<^verbatim>\<open>import f(a)\<close>, each in a new module. In the
  first LLVM names the parameters \<^verbatim>\<open>a\<close> and \<^verbatim>\<open>a1\<close>.
\<close>

definition f_imported_a_a :: "string state" where
  "f_imported_a_a = snd (PrototypeAST_codegen plain_LLVM (PrototypeAST ''f'' [''a'', ''a''])
                           (init_state (\<lambda>run. run) []))"

definition f_imported_a :: "string state" where
  "f_imported_a = snd (PrototypeAST_codegen plain_LLVM (PrototypeAST ''f'' [''a''])
                         (init_state (\<lambda>run. run) []))"

text \<open>
  After \<^verbatim>\<open>import f(a a)\<close> the definition \<^verbatim>\<open>fn f(a1 z) a1\<close> succeeds, although \<^verbatim>\<open>a1\<close> is a
  parameter name of the definition that is not in the list of the import. After
  \<^verbatim>\<open>import f(a)\<close> the definition \<^verbatim>\<open>fn f(b) g(b)\<close> fails with the unknown function error, not
  with the unknown variable error: the argument \<^verbatim>\<open>b\<close> is never lowered.
\<close>

theorem FunctionAST_codegen_definition_name_bound:
  "''a1'' \<notin> set [''a'', ''a''] \<and> ''a1'' \<in> set [''a1'', ''z'']
   \<and> FunctionAST_codegen plain_LLVM
         (FunctionAST (PrototypeAST ''f'' [''a1'', ''z'']) (VariableExprAST ''a1'')) f_imported_a_a
       = (Some 0,
          f_imported_a_a
            \<lparr>TheModule := [(0, \<lparr>fn_name = ''f'', fn_args = [''a'', ''a1''],
                                 fn_blocks = [[Ret (Argument 0 1)]]\<rparr>)],
              NamedValues := [''a'' \<mapsto> Some (Argument 0 0), ''a1'' \<mapsto> Some (Argument 0 1)],
              InsertPoint := Some (0, 0)\<rparr>)
   \<and> stderr f_imported_a_a = []
   \<and> ''b'' \<notin> set [''a''] \<and> ''b'' \<in> set [''b'']
   \<and> FunctionAST_codegen plain_LLVM
         (FunctionAST (PrototypeAST ''f'' [''b'']) (CallExprAST ''g'' [VariableExprAST ''b''])) f_imported_a
       = (None,
          f_imported_a
            \<lparr>TheModule := [], NamedValues := [''a'' \<mapsto> Some (Argument 0 0)],
              InsertPoint := Some (0, 0), stderr := [''Error: Unkown Function referenced'']\<rparr>)"
  by (simp add: f_imported_a_a_def f_imported_a_def plain_LLVM_def cg_eval)

text \<open>
  After \<^verbatim>\<open>import f(a b)\<close>, the definitions \<^verbatim>\<open>fn f(x y) y\<close> and \<^verbatim>\<open>fn f(x y) a*y\<close> fail and report
  the unknown variable, and \<^verbatim>\<open>fn f(x y) b\<close> returns the second parameter.
\<close>

theorem FunctionAST_codegen_imported_names_witness:
  "fst (FunctionAST_codegen plain_LLVM
          (FunctionAST (PrototypeAST ''f'' [''x'', ''y'']) (VariableExprAST ''y'')) f_declared) = None
   \<and> stderr (snd (FunctionAST_codegen plain_LLVM
          (FunctionAST (PrototypeAST ''f'' [''x'', ''y'']) (VariableExprAST ''y'')) f_declared))
       = [''Error: Unknown Variable name'']
   \<and> fst (FunctionAST_codegen plain_LLVM
          (FunctionAST (PrototypeAST ''f'' [''x'', ''y''])
             (BinaryExprAST CHR ''*'' (VariableExprAST ''a'') (VariableExprAST ''y''))) f_declared) = None
   \<and> ''Error: Unknown Variable name''
       \<in> set (stderr (snd (FunctionAST_codegen plain_LLVM
          (FunctionAST (PrototypeAST ''f'' [''x'', ''y''])
             (BinaryExprAST CHR ''*'' (VariableExprAST ''a'') (VariableExprAST ''y''))) f_declared)))
   \<and> FunctionAST_codegen plain_LLVM
          (FunctionAST (PrototypeAST ''f'' [''x'', ''y'']) (VariableExprAST ''b'')) f_declared
       = (Some 0,
          f_declared
            \<lparr>TheModule := [(0, \<lparr>fn_name = ''f'', fn_args = [''a'', ''b''],
                                 fn_blocks = [[Ret (Argument 0 1)]]\<rparr>)],
              NamedValues := [''a'' \<mapsto> Some (Argument 0 0), ''b'' \<mapsto> Some (Argument 0 1)],
              InsertPoint := Some (0, 0)\<rparr>)"
proof -
  let ?s = "init_state (\<lambda>run. run) [] :: string state"
  let ?f = "\<lparr>fn_name = ''f'', fn_args = [''a'', ''b''], fn_blocks = []\<rparr> :: string Function"
  let ?Q = "[''x'', ''y'']"
  let ?mul = "BinaryExprAST CHR ''*'' (VariableExprAST ''a'') (VariableExprAST ''y'') :: string ExprAST"
  have h: "''f'' \<noteq> []" "getFunction (TheModule ?s) ''f'' = None"
    by (simp_all add: init_state_def getFunction_def)
  have p: "PrototypeAST_codegen plain_LLVM (PrototypeAST ''f'' [''a'', ''b'']) ?s = (Some (0, ?f), f_declared)"
    by (simp add: f_declared_eq) (simp add: cg_eval)
  have z: "stderr ?s = []" by (simp add: init_state_def)
  from FunctionAST_codegen_imported_names [OF h, of plain_LLVM "[''a'', ''b'']" ?Q]
  obtain F f s1 where p': "PrototypeAST_codegen plain_LLVM (PrototypeAST ''f'' [''a'', ''b'']) ?s = (Some (F, f), s1)"
    and fails: "\<forall>Body q. q \<in> vars Body \<and> q \<notin> set (fn_args f) \<longrightarrow>
               fst (FunctionAST_codegen plain_LLVM (FunctionAST (PrototypeAST ''f'' ?Q) Body) s1) = None"
    and said: "\<forall>Body q. call_free Body \<and> q \<in> vars Body \<and> q \<notin> set (fn_args f) \<longrightarrow>
               (\<exists>msgs. stderr (snd (FunctionAST_codegen plain_LLVM (FunctionAST (PrototypeAST ''f'' ?Q) Body) s1))
                          = stderr ?s @ msgs
                      \<and> ''Error: Unknown Variable name'' \<in> set msgs)"
    and msg: "\<forall>q. q \<notin> set (fn_args f) \<longrightarrow>
               stderr (snd (FunctionAST_codegen plain_LLVM (FunctionAST (PrototypeAST ''f'' ?Q) (VariableExprAST q)) s1))
                 = stderr ?s @ [''Error: Unknown Variable name'']"
    and nth: "\<forall>i<length (fn_args f).
               (\<forall>j<length (fn_args f). i < j \<longrightarrow> fn_args f ! j \<noteq> fn_args f ! i) \<longrightarrow>
               FunctionAST_codegen plain_LLVM (FunctionAST (PrototypeAST ''f'' ?Q) (VariableExprAST (fn_args f ! i))) s1
                 = (Some F, Insert (Ret (Argument F i)) (body_state F f s1))"
    by blast
  from p p' have F: "F = 0" and f: "f = ?f" and s1: "s1 = f_declared" by simp_all
  have y: "''y'' \<notin> set (fn_args f)" by (simp add: f)
  have a: "fst (FunctionAST_codegen plain_LLVM (FunctionAST (PrototypeAST ''f'' ?Q) (VariableExprAST ''y'')) f_declared)
             = None"
    using fails [rule_format, of "''y''" "VariableExprAST ''y''"] y by (simp add: s1)
  have b: "stderr (snd (FunctionAST_codegen plain_LLVM (FunctionAST (PrototypeAST ''f'' ?Q) (VariableExprAST ''y'')) f_declared))
             = [''Error: Unknown Variable name'']"
    using msg [rule_format, of "''y''"] y z by (simp add: s1)
  have c: "fst (FunctionAST_codegen plain_LLVM (FunctionAST (PrototypeAST ''f'' ?Q) ?mul) f_declared) = None"
    using fails [rule_format, of "''y''" ?mul] y by (simp add: s1)
  have d: "''Error: Unknown Variable name''
             \<in> set (stderr (snd (FunctionAST_codegen plain_LLVM (FunctionAST (PrototypeAST ''f'' ?Q) ?mul) f_declared)))"
    using said [rule_format, of ?mul "''y''"] y z by (auto simp: s1)
  have "FunctionAST_codegen plain_LLVM (FunctionAST (PrototypeAST ''f'' ?Q) (VariableExprAST (fn_args f ! 1))) s1
          = (Some F, Insert (Ret (Argument F 1)) (body_state F f s1))"
    using nth [rule_format, of 1] by (simp add: f)
  then have e: "FunctionAST_codegen plain_LLVM (FunctionAST (PrototypeAST ''f'' ?Q) (VariableExprAST ''b'')) f_declared
       = (Some 0,
          f_declared
            \<lparr>TheModule := [(0, \<lparr>fn_name = ''f'', fn_args = [''a'', ''b''],
                                 fn_blocks = [[Ret (Argument 0 1)]]\<rparr>)],
              NamedValues := [''a'' \<mapsto> Some (Argument 0 0), ''b'' \<mapsto> Some (Argument 0 1)],
              InsertPoint := Some (0, 0)\<rparr>)"
    unfolding F f s1
    by (simp add: f_declared_eq body_state_def BasicBlock_Create_def Insert_def append_at_def init_state_def)
  from a b c d e show ?thesis by blast
qed


end
